theory Spec2Isabelle
  imports Main
begin

section \<open>The operating system as the program sees it\<close>

text \<open>
  The program under study (\<^verbatim>\<open>recept/apps/shell.py\<close> and \<^verbatim>\<open>recept/apps/app.py\<close>) is glue over
  the operating system: \<^verbatim>\<open>os.getcwd\<close>, \<^verbatim>\<open>os.chdir\<close>, \<^verbatim>\<open>os.makedirs\<close>, \<^verbatim>\<open>os.path.abspath\<close>,
  the logger, a re-entrant lock and the \<^verbatim>\<open>sh\<close> library. The state those calls read and
  write is made explicit: a directory tree of directories and regular files (no symbolic
  links, no permissions), the working directory of the process, the records handed to
  \<^verbatim>\<open>logger.debug\<close>, and the hold count of \<^verbatim>\<open>PUSHD_LOCK\<close> in the running thread.
  A node of the tree is named by the list of its components below the root.
\<close>

datatype kind = Dir | File

datatype os_error = FileNotFoundError | FileExistsError | NotADirectoryError

datatype error =
    OSError os_error
  | CommandNotFound string
  | ErrorReturnCode nat string
  | TypeError string
  | SystemExit nat
  | Exception string

type_synonym tree = "(string list \<times> kind) list"

record os_state =
  nodes :: tree
  wd :: "string list"
  log :: "string list"
  PUSHD_LOCK :: nat

text \<open>
  A Python call either returns a value or raises; in both cases the state it has
  changed so far stays changed.
\<close>

type_synonym 'a prog = "os_state \<Rightarrow> (error + 'a) \<times> os_state"

definition ret :: "'a \<Rightarrow> 'a prog" where
  "ret x s = (Inr x, s)"

definition raise :: "error \<Rightarrow> 'a prog" where
  "raise e s = (Inl e, s)"

definition seq :: "'a prog \<Rightarrow> ('a \<Rightarrow> 'b prog) \<Rightarrow> 'b prog" where
  "seq m f s = (case m s of (Inl e, s1) \<Rightarrow> (Inl e, s1) | (Inr x, s1) \<Rightarrow> f x s1)"

subsection \<open>Path strings (posixpath)\<close>

text \<open>\<^verbatim>\<open>path.split('/')\<close>: the pieces between separators; never the empty list.\<close>

fun split_sep :: "string \<Rightarrow> string list" where
  "split_sep [] = [[]]"
| "split_sep (c # cs) =
     (if c = CHR ''/'' then [] # split_sep cs
      else (c # hd (split_sep cs)) # tl (split_sep cs))"

text \<open>\<^verbatim>\<open>'/'.join(comps)\<close>.\<close>

fun join_sep :: "string list \<Rightarrow> string" where
  "join_sep [] = []"
| "join_sep [x] = x"
| "join_sep (x # y # ys) = x @ CHR ''/'' # join_sep (y # ys)"

definition isabs :: "string \<Rightarrow> bool" where
  "isabs p = (take 1 p = ''/'')"

text \<open>\<^verbatim>\<open>posixpath.join(a, b)\<close> for two arguments.\<close>

definition path_join :: "string \<Rightarrow> string \<Rightarrow> string" where
  "path_join a b =
     (if isabs b then b
      else if a = [] \<or> last a = CHR ''/'' then a @ b
      else a @ CHR ''/'' # b)"

text \<open>
  The loop of \<^verbatim>\<open>posixpath.normpath\<close>: empty and \<^verbatim>\<open>.\<close> components are dropped, \<^verbatim>\<open>..\<close>
  removes the component before it, and is kept only in a relative path that has nothing
  left to remove.
\<close>

fun norm_comps :: "bool \<Rightarrow> string list \<Rightarrow> string list \<Rightarrow> string list" where
  "norm_comps initial new_comps [] = new_comps"
| "norm_comps initial new_comps (c # comps) =
     (if c = [] \<or> c = ''.'' then norm_comps initial new_comps comps
      else if c \<noteq> ''..'' \<or> (\<not> initial \<and> new_comps = [])
                \<or> (new_comps \<noteq> [] \<and> last new_comps = ''..'')
        then norm_comps initial (new_comps @ [c]) comps
      else if new_comps \<noteq> [] then norm_comps initial (butlast new_comps) comps
      else norm_comps initial new_comps comps)"

text \<open>POSIX keeps exactly two leading slashes apart from one and from three or more.\<close>

definition initial_slashes :: "string \<Rightarrow> nat" where
  "initial_slashes p =
     (if take 1 p = ''/'' then (if take 2 p = ''//'' \<and> take 3 p \<noteq> ''///'' then 2 else 1)
      else 0)"

definition normpath :: "string \<Rightarrow> string" where
  "normpath p =
     (if p = [] then ''.''
      else let n = initial_slashes p;
               comps = norm_comps (n \<noteq> 0) [] (split_sep p);
               r = replicate n (CHR ''/'') @ join_sep comps
           in if r = [] then ''.'' else r)"

subsection \<open>System calls\<close>

text \<open>
  Path lookup as the kernel does it: from a start directory, component by component;
  every component is looked up in a directory that exists.
\<close>

fun namei :: "(string list \<rightharpoonup> kind) \<Rightarrow> string list \<Rightarrow> string list \<Rightarrow> os_error + string list" where
  "namei t cur [] = (if t cur = None then Inl FileNotFoundError else Inr cur)"
| "namei t cur (c # cs) =
     (case t cur of
        None \<Rightarrow> Inl FileNotFoundError
      | Some File \<Rightarrow> Inl NotADirectoryError
      | Some Dir \<Rightarrow>
          if c = [] \<or> c = ''.'' then namei t cur cs
          else if c = ''..'' then namei t (butlast cur) cs
          else namei t (cur @ [c]) cs)"

definition start_dir :: "os_state \<Rightarrow> string \<Rightarrow> string list" where
  "start_dir s path = (if isabs path then [] else wd s)"

definition resolve :: "os_state \<Rightarrow> string \<Rightarrow> os_error + string list" where
  "resolve s path =
     (if path = [] then Inl FileNotFoundError
      else namei (map_of (nodes s)) (start_dir s path) (split_sep path))"

text \<open>\<^verbatim>\<open>os.path.isdir(path)\<close>.\<close>

definition isdir :: "os_state \<Rightarrow> string \<Rightarrow> bool" where
  "isdir s path =
     (case resolve s path of Inl e \<Rightarrow> False | Inr d \<Rightarrow> map_of (nodes s) d = Some Dir)"

text \<open>\<^verbatim>\<open>os.getcwd()\<close>: fails once the working directory has been removed.\<close>

definition getcwd :: "string prog" where
  "getcwd s =
     (if map_of (nodes s) (wd s) = Some Dir then (Inr (CHR ''/'' # join_sep (wd s)), s)
      else (Inl (OSError FileNotFoundError), s))"

text \<open>\<^verbatim>\<open>os.chdir(path)\<close>: the working directory changes only when the call succeeds.\<close>

definition chdir :: "string \<Rightarrow> unit prog" where
  "chdir path s =
     (case resolve s path of
        Inl e \<Rightarrow> (Inl (OSError e), s)
      | Inr d \<Rightarrow>
          if map_of (nodes s) d = Some Dir then (Inr (), s\<lparr>wd := d\<rparr>)
          else (Inl (OSError NotADirectoryError), s))"

text \<open>
  \<^verbatim>\<open>os.makedirs(path, exist_ok=True)\<close>: walks the path and creates every directory that
  is missing. A regular file on the way stops it; what was created before stays.
\<close>

fun mkdirs :: "tree \<Rightarrow> string list \<Rightarrow> string list \<Rightarrow> (os_error + unit) \<times> tree" where
  "mkdirs t cur [] =
     (case map_of t cur of
        None \<Rightarrow> (Inl FileNotFoundError, t)
      | Some File \<Rightarrow> (Inl FileExistsError, t)
      | Some Dir \<Rightarrow> (Inr (), t))"
| "mkdirs t cur (c # cs) =
     (case map_of t cur of
        None \<Rightarrow> (Inl FileNotFoundError, t)
      | Some File \<Rightarrow> (Inl NotADirectoryError, t)
      | Some Dir \<Rightarrow>
          if c = [] \<or> c = ''.'' then mkdirs t cur cs
          else if c = ''..'' then mkdirs t (butlast cur) cs
          else (case map_of t (cur @ [c]) of
                  None \<Rightarrow> mkdirs ((cur @ [c], Dir) # t) (cur @ [c]) cs
                | Some k \<Rightarrow> mkdirs t (cur @ [c]) cs))"

definition makedirs :: "string \<Rightarrow> unit prog" where
  "makedirs path s =
     (if path = [] then (Inl (OSError FileNotFoundError), s)
      else case mkdirs (nodes s) (start_dir s path) (split_sep path) of
             (Inl e, t) \<Rightarrow> (Inl (OSError e), s\<lparr>nodes := t\<rparr>)
           | (Inr u, t) \<Rightarrow> (Inr (), s\<lparr>nodes := t\<rparr>))"

text \<open>\<^verbatim>\<open>os.path.abspath(path)\<close>: reads the working directory only for a relative path.\<close>

definition abspath :: "string \<Rightarrow> string prog" where
  "abspath path =
     (if isabs path then ret (normpath path)
      else seq getcwd (\<lambda>c. ret (normpath (path_join c path))))"

text \<open>\<^verbatim>\<open>logger.debug(fmt, arg)\<close>: the formatted record is appended to the log.\<close>

definition logger_debug :: "string \<Rightarrow> unit prog" where
  "logger_debug msg s = (Inr (), s\<lparr>log := log s @ [msg]\<rparr>)"

section \<open>recept.apps.shell\<close>

text \<open>\<^verbatim>\<open>cwd()\<close>: \<^verbatim>\<open>os.path.abspath(os.getcwd())\<close>.\<close>

definition cwd :: "string prog" where
  "cwd = seq getcwd abspath"

text \<open>\<^verbatim>\<open>cd(path, create)\<close>.\<close>

definition cd :: "string \<Rightarrow> bool \<Rightarrow> unit prog" where
  "cd path create =
     seq (if create then makedirs path else ret ()) (\<lambda>_.
     seq (logger_debug (''cd -> '' @ path)) (\<lambda>_.
     chdir path))"

text \<open>
  The generator under \<^verbatim>\<open>@contextmanager\<close> in \<^verbatim>\<open>pushd\<close>, cut at its \<^verbatim>\<open>yield\<close>:
  \<open>pushd_enter\<close> is the code before it and hands the locals \<^verbatim>\<open>cwd\<close> and \<^verbatim>\<open>path\<close> to
  \<open>pushd_exit\<close>, the \<^verbatim>\<open>finally\<close> block.
\<close>

definition pushd_enter :: "string \<Rightarrow> bool \<Rightarrow> (string \<times> string) prog" where
  "pushd_enter path create =
     seq getcwd (\<lambda>cwd0.
     seq (abspath path) (\<lambda>p.
     seq (if create then makedirs p else ret ()) (\<lambda>_.
     seq (logger_debug (''pushd -> '' @ p)) (\<lambda>_.
     seq (chdir p) (\<lambda>_.
     ret (cwd0, p))))))"

definition pushd_exit :: "string \<times> string \<Rightarrow> unit prog" where
  "pushd_exit = (\<lambda>(cwd0, p).
     seq (logger_debug (''pushd <- '' @ p)) (\<lambda>_.
     chdir cwd0))"

text \<open>
  \<^verbatim>\<open>with cm: body\<close> for a generator of the shape \<^verbatim>\<open>enter; try: yield finally: exit\<close>.
  When the entry raises the body does not run. The exit code runs whether the body
  returned or raised; an exception of the exit code is the one that leaves the
  statement, otherwise the outcome of the body does.
\<close>

definition with_ctx :: "'t prog \<Rightarrow> ('t \<Rightarrow> unit prog) \<Rightarrow> 'a prog \<Rightarrow> 'a prog" where
  "with_ctx enter exit body s =
     (case enter s of
        (Inl e, s1) \<Rightarrow> (Inl e, s1)
      | (Inr tok, s1) \<Rightarrow>
          (case body s1 of (r, s2) \<Rightarrow>
             (case exit tok s2 of
                (Inl e2, s3) \<Rightarrow> (Inl e2, s3)
              | (Inr u, s3) \<Rightarrow> (r, s3))))"

text \<open>
  \<^verbatim>\<open>with_lock(PUSHD_LOCK)\<close>: \<^verbatim>\<open>with lock: with fn(...): yield\<close>. In the running thread the
  re-entrant lock is a hold count: taken before the wrapped manager is entered, given
  back after it has been left, on every path.
\<close>

definition with_lock :: "'a prog \<Rightarrow> 'a prog" where
  "with_lock inner s =
     (case inner (s\<lparr>PUSHD_LOCK := PUSHD_LOCK s + 1\<rparr>) of
        (r, s1) \<Rightarrow> (r, s1\<lparr>PUSHD_LOCK := PUSHD_LOCK s1 - 1\<rparr>))"

text \<open>\<^verbatim>\<open>with pushd(path, create): body\<close>.\<close>

definition pushd :: "string \<Rightarrow> bool \<Rightarrow> 'a prog \<Rightarrow> 'a prog" where
  "pushd path create body = with_lock (with_ctx (pushd_enter path create) pushd_exit body)"

section \<open>recept.apps.app\<close>

text \<open>
  The \<^verbatim>\<open>sh\<close> library as \<^verbatim>\<open>app\<close> uses it. A command is the located program, the
  arguments baked so far and the special options baked so far. The environment holds
  what the library and the machine decide: what the search path locates, where the
  interpreter lives, what a child process other than the fallback does, the table
  \<^verbatim>\<open>Command._call_args\<close> of special options (names without the underscore, with their
  defaults), the combinations of special options the validators refuse, and how a
  keyword that is not special is written as program arguments.
\<close>

datatype stream = Stdout | Stderr

datatype val = Stream stream | Bool bool | Codes "nat list" | NoneVal | Str string

type_synonym kwargs = "(string \<times> val) list"

record command =
  program :: string
  baked_args :: "string list"
  baked_kwargs :: kwargs

record sh_env =
  which :: "string \<Rightarrow> string option"
  sys_executable :: string
  run :: "string \<Rightarrow> string list \<Rightarrow> nat \<times> string"
  call_args :: kwargs
  refused :: "kwargs \<Rightarrow> bool"
  compile_kwarg :: "string \<times> val \<Rightarrow> string list"

text \<open>\<^verbatim>\<open>sh.Command(name)\<close>: raises \<^verbatim>\<open>CommandNotFound\<close> when the program is not located.\<close>

definition Command :: "sh_env \<Rightarrow> string \<Rightarrow> error + command" where
  "Command env name =
     (case which env name of
        None \<Rightarrow> Inl (CommandNotFound name)
      | Some p \<Rightarrow> Inr \<lparr>program = p, baked_args = [], baked_kwargs = []\<rparr>)"

text \<open>
  \<^verbatim>\<open>_extract_call_args\<close>: the keywords \<^verbatim>\<open>_name\<close> whose name is in the table are taken out
  as special options; the validators look at the options that were passed, so with none
  passed none fires; a refused combination raises \<^verbatim>\<open>TypeError\<close>.
\<close>

definition special :: "sh_env \<Rightarrow> string \<Rightarrow> bool" where
  "special env k \<longleftrightarrow> (\<exists>parg \<in> set (map fst (call_args env)). k = CHR ''_'' # parg)"

definition extract_call_args :: "sh_env \<Rightarrow> kwargs \<Rightarrow> error + kwargs \<times> kwargs" where
  "extract_call_args env kw =
     (let passed = map (\<lambda>(k, v). (tl k, v)) (filter (\<lambda>(k, v). special env k) kw);
          rest = filter (\<lambda>(k, v). \<not> special env k) kw
      in if passed \<noteq> [] \<and> refused env passed
         then Inl (TypeError ''Invalid special arguments'')
         else Inr (passed, rest))"

text \<open>
  \<^verbatim>\<open>bake\<close>: special options that differ from their default are kept with the command,
  newer ones first so that a lookup finds them before older ones; the other keywords
  are written out as arguments after the positional ones.
\<close>

definition bake :: "sh_env \<Rightarrow> command \<Rightarrow> string list \<Rightarrow> kwargs \<Rightarrow> error + command" where
  "bake env c args kw =
     (case extract_call_args env kw of
        Inl e \<Rightarrow> Inl e
      | Inr (passed, rest) \<Rightarrow>
          Inr (c\<lparr>baked_args := baked_args c @ args @ concat (map (compile_kwarg env) rest),
                 baked_kwargs :=
                   filter (\<lambda>(k, v). map_of (call_args env) k \<noteq> Some v) passed
                   @ baked_kwargs c\<rparr>))"

text \<open>The text handed to the interpreter's \<^verbatim>\<open>-c\<close> by the fallback: the f-string of \<^verbatim>\<open>app\<close>.\<close>

definition script_head :: string where
  "script_head = ''import sys; import click; click.secho('Command `''"

definition script_tail :: string where
  "script_tail = ''` not found', fg='red'); sys.exit(1)''"

definition script :: "string \<Rightarrow> string" where
  "script name = script_head @ name @ script_tail"

text \<open>
  What the interpreter makes of that text. A name of printable characters without a
  quote or a backslash stays inside its string literal, and the text is the program
  \<^verbatim>\<open>import sys; import click; click.secho(message, fg='red'); sys.exit(1)\<close>. Any other name
  changes the program; what the interpreter does then, like what any other child does,
  is the environment's. The output of a child is the text it hands to \<^verbatim>\<open>click.secho\<close>;
  colour codes and line ends are left out.
\<close>

datatype stmt = Import string | Secho string string | Exit nat

fun exec :: "stmt list \<Rightarrow> string \<Rightarrow> nat \<times> string" where
  "exec [] out = (0, out)"
| "exec (Import m # ss) out = exec ss out"
| "exec (Secho text fg # ss) out = exec ss (out @ text)"
| "exec (Exit n # ss) out = (n, out)"

definition plain_char :: "char \<Rightarrow> bool" where
  "plain_char c \<longleftrightarrow>
     c \<noteq> CHR 0x27 \<and> c \<noteq> CHR 0x5C \<and> (32::nat) \<le> of_char c \<and> of_char c \<le> (126::nat)"

definition plain :: "string \<Rightarrow> bool" where
  "plain name = list_all plain_char name"

definition read_script :: "string \<Rightarrow> stmt list option" where
  "read_script src =
     (let name = take (length src - length script_head - length script_tail)
                      (drop (length script_head) src)
      in if src = script name \<and> plain name
         then Some [Import ''sys'', Import ''click'',
                    Secho (''Command `'' @ name @ ''` not found'') ''red'', Exit 1]
         else None)"

text \<open>The child process: the interpreter on a text it reads as above, or the environment's.\<close>

definition spawn :: "sh_env \<Rightarrow> string \<Rightarrow> string list \<Rightarrow> nat \<times> string" where
  "spawn env p args =
     (case args of
        c # src # rest \<Rightarrow>
          if which env (sys_executable env) = Some p \<and> c = ''-c''
          then (case read_script src of
                  Some prog \<Rightarrow> exec prog []
                | None \<Rightarrow> run env p args)
          else run env p args
      | _ \<Rightarrow> run env p args)"

text \<open>
  Calling a command: the call-time keywords go through \<^verbatim>\<open>_extract_call_args\<close> as well and
  come before the baked options; the program runs as a child with the baked arguments
  followed by the call-time ones; the caller waits for it. \<^verbatim>\<open>sh\<close> keeps the child's
  output unless \<^verbatim>\<open>_out\<close> sends it elsewhere without \<^verbatim>\<open>_tee\<close>. An exit status that is not
  among \<^verbatim>\<open>_ok_code\<close> (0 when not given) raises \<^verbatim>\<open>ErrorReturnCode\<close> with the status and
  the output kept. Options that change how the child is run (\<^verbatim>\<open>_bg\<close>, \<^verbatim>\<open>_fg\<close>, \<^verbatim>\<open>_iter\<close>,
  \<^verbatim>\<open>_piped\<close>, \<^verbatim>\<open>_timeout\<close>) are not interpreted.
\<close>

definition ok_code :: "kwargs \<Rightarrow> nat list" where
  "ok_code ca = (case map_of ca ''ok_code'' of Some (Codes cs) \<Rightarrow> cs | _ \<Rightarrow> [0])"

definition captures :: "kwargs \<Rightarrow> bool" where
  "captures ca =
     (case map_of ca ''out'' of
        None \<Rightarrow> True
      | Some NoneVal \<Rightarrow> True
      | Some v \<Rightarrow> map_of ca ''tee'' = Some (Bool True) \<or> map_of ca ''tee'' = Some (Str ''out''))"

definition call :: "sh_env \<Rightarrow> command \<Rightarrow> string list \<Rightarrow> kwargs \<Rightarrow> error + string" where
  "call env c args kw =
     (case extract_call_args env kw of
        Inl e \<Rightarrow> Inl e
      | Inr (passed, rest) \<Rightarrow>
          (case spawn env (program c)
                  (baked_args c @ args @ concat (map (compile_kwarg env) rest)) of
             (code, text) \<Rightarrow>
               let ca = passed @ baked_kwargs c;
                   kept = (if captures ca then text else [])
               in if code \<in> set (ok_code ca) then Inr kept
                  else Inl (ErrorReturnCode code kept)))"

text \<open>
  \<^verbatim>\<open>app(name, *args, _out, _err, _tee, **kwargs)\<close>. The \<^verbatim>\<open>try\<close> block holds both the lookup
  and the \<^verbatim>\<open>bake\<close>; only \<^verbatim>\<open>CommandNotFound\<close> is caught, and the handler looks the
  interpreter up in the same way.
\<close>

definition app :: "sh_env \<Rightarrow> string \<Rightarrow> string list \<Rightarrow> val \<Rightarrow> val \<Rightarrow> val \<Rightarrow> kwargs \<Rightarrow> error + command" where
  "app env name args out err tee kwargs =
     (case (case Command env name of
              Inl e \<Rightarrow> Inl e
            | Inr c \<Rightarrow>
                bake env c args ([(''_out'', out), (''_err'', err), (''_tee'', tee)] @ kwargs)) of
        Inr h \<Rightarrow> Inr h
      | Inl (CommandNotFound n) \<Rightarrow>
          (case Command env (sys_executable env) of
             Inl e \<Rightarrow> Inl e
           | Inr c \<Rightarrow> bake env c [''-c'', script name] [])
      | Inl e \<Rightarrow> Inl e)"

section \<open>Well-formed trees and the directory a path names\<close>

text \<open>
  A name in the tree is not empty, not \<^verbatim>\<open>.\<close> or \<^verbatim>\<open>..\<close>, and has no separator. In a
  well-formed tree the root is a directory and every other node lies in a directory.
\<close>

definition regular :: "string \<Rightarrow> bool" where
  "regular n \<longleftrightarrow> n \<noteq> [] \<and> n \<noteq> ''.'' \<and> n \<noteq> ''..'' \<and> CHR ''/'' \<notin> set n"

definition wf_tree :: "tree \<Rightarrow> bool" where
  "wf_tree t \<longleftrightarrow>
     map_of t [] = Some Dir \<and>
     list_all (\<lambda>(p, k). p = [] \<or> (map_of t (butlast p) = Some Dir \<and> regular (last p))) t"

text \<open>What \<^verbatim>\<open>os.path.abspath(path)\<close> returns in a state whose working directory exists.\<close>

definition abs_of :: "os_state \<Rightarrow> string \<Rightarrow> string" where
  "abs_of s p =
     (if isabs p then normpath p else normpath (path_join (CHR ''/'' # join_sep (wd s)) p))"

text \<open>The components of an absolute, normalised path: the node it names.\<close>

definition path_comps :: "string \<Rightarrow> string list" where
  "path_comps p = filter (\<lambda>c. c \<noteq> []) (split_sep p)"

text \<open>
  The components \<^verbatim>\<open>normpath\<close> is left with for \<^verbatim>\<open>abspath(p)\<close>: the node \<^verbatim>\<open>pushd(p)\<close> makes
  for.
\<close>

definition target :: "os_state \<Rightarrow> string \<Rightarrow> string list" where
  "target s p =
     norm_comps True []
       (split_sep (if isabs p then p else path_join (CHR ''/'' # join_sep (wd s)) p))"

text \<open>
  The nested use of the docstring, reading \<^verbatim>\<open>cwd()\<close> at every stage:
  \<^verbatim>\<open>c0 = cwd()\<close>; \<^verbatim>\<open>with pushd(A): c1 = cwd(); with pushd(B): c2 = cwd()\<close>; then
  \<^verbatim>\<open>c3 = cwd()\<close> after the inner scope and \<^verbatim>\<open>c4 = cwd()\<close> after the outer one.
\<close>

definition nested :: "string \<Rightarrow> string \<Rightarrow> bool \<Rightarrow> string list prog" where
  "nested A B create =
     seq cwd (\<lambda>c0.
     seq (pushd A create
            (seq cwd (\<lambda>c1.
             seq (pushd B create cwd) (\<lambda>c2.
             seq cwd (\<lambda>c3.
             ret [c1, c2, c3]))))) (\<lambda>cs.
     seq cwd (\<lambda>c4.
     ret (c0 # cs @ [c4]))))"

section \<open>Concrete states and environments\<close>

text \<open>
  A small tree: \<^verbatim>\<open>/home\<close>, \<^verbatim>\<open>/home/u\<close> and \<^verbatim>\<open>/srv\<close> are directories, \<^verbatim>\<open>/etc\<close> is a regular
  file; the process is in \<^verbatim>\<open>/home\<close>.
\<close>

definition st0 :: os_state where
  "st0 = \<lparr>nodes = [([], Dir), ([''home''], Dir), ([''home'', ''u''], Dir), ([''srv''], Dir),
                   ([''etc''], File)],
          wd = [''home''], log = [], PUSHD_LOCK = 0\<rparr>"

text \<open>The same tree seen by a process whose working directory has been removed.\<close>

definition st_gone :: os_state where
  "st_gone = st0\<lparr>wd := [''gone'']\<rparr>"

text \<open>A scope body that removes the subtree at a node, and one that then raises.\<close>

definition rmtree :: "string list \<Rightarrow> unit prog" where
  "rmtree d s = (Inr (), s\<lparr>nodes := filter (\<lambda>(p, k). take (length d) p \<noteq> d) (nodes s)\<rparr>)"

definition rm_and_raise :: "unit prog" where
  "rm_and_raise = seq (rmtree [''home'']) (\<lambda>_. raise (Exception ''boom''))"

text \<open>A scope body that changes the directory again and then raises.\<close>

definition cd_and_raise :: "unit prog" where
  "cd_and_raise = seq (cd ''/srv'' False) (\<lambda>_. raise (Exception ''boom''))"

text \<open>
  Combinations the validators of \<^verbatim>\<open>sh\<close> refuse: \<^verbatim>\<open>_err\<close> together with \<^verbatim>\<open>_err_to_out\<close>,
  and a true \<^verbatim>\<open>_fg\<close> together with any option other than \<^verbatim>\<open>_env\<close> and \<^verbatim>\<open>_cwd\<close>.
\<close>

definition sh_refused :: "kwargs \<Rightarrow> bool" where
  "sh_refused ca \<longleftrightarrow>
     (''err'' \<in> set (map fst ca) \<and> ''err_to_out'' \<in> set (map fst ca))
     \<or> (map_of ca ''fg'' = Some (Bool True)
        \<and> (\<exists>k \<in> set (map fst ca). k \<noteq> ''env'' \<and> k \<noteq> ''fg'' \<and> k \<noteq> ''cwd''))"

text \<open>
  A name that closes the string literal of the script and ends the program early: the
  text becomes \<^verbatim>\<open>click.secho('Command `x`'); sys.exit(0); print(...); sys.exit(1)\<close>.
\<close>

definition quoted_name :: string where
  "quoted_name = ''x`'); sys.exit(0); print('' @ [CHR 0x27]"

text \<open>
  An environment with \<^verbatim>\<open>ls\<close> and the interpreter on the search path. The interpreter,
  given the script for the name above, prints \<^verbatim>\<open>Command `x`\<close> and exits with status 0.
\<close>

definition env0 :: sh_env where
  "env0 = \<lparr>which = (\<lambda>n. if n = ''/usr/bin/python3'' then Some ''/usr/bin/python3''
                        else if n = ''ls'' then Some ''/bin/ls'' else None),
           sys_executable = ''/usr/bin/python3'',
           run = (\<lambda>p a. if p = ''/usr/bin/python3'' \<and> a = [''-c'', script quoted_name]
                         then (0, ''Command `x`'') else (0, [])),
           call_args = [(''out'', NoneVal), (''err'', NoneVal), (''tee'', NoneVal),
                        (''ok_code'', Codes [0]), (''fg'', Bool False), (''bg'', Bool False),
                        (''err_to_out'', NoneVal), (''env'', NoneVal), (''cwd'', NoneVal)],
           refused = sh_refused,
           compile_kwarg = (\<lambda>(k, v). [''--'' @ k])\<rparr>"

text \<open>An environment in which the interpreter's own path cannot be located either.\<close>

definition env_bare :: sh_env where
  "env_bare = env0\<lparr>which := (\<lambda>n. None), sys_executable := []\<rparr>"

section \<open>Splitting and joining paths\<close>

lemma split_sep_ne: "split_sep p \<noteq> []"
  by (cases p) auto

lemma split_sep_noslash: "CHR ''/'' \<notin> set n \<Longrightarrow> split_sep n = [n]"
  by (induction n) auto

lemma split_sep_append:
  "CHR ''/'' \<notin> set a \<Longrightarrow> split_sep (a @ CHR ''/'' # b) = a # split_sep b"
  by (induction a) auto

lemma split_join:
  "ns \<noteq> [] \<Longrightarrow> \<forall>n\<in>set ns. CHR ''/'' \<notin> set n \<Longrightarrow> split_sep (join_sep ns) = ns"
  by (induction ns rule: join_sep.induct) (auto simp: split_sep_noslash split_sep_append)

lemma split_join_append:
  "ns \<noteq> [] \<Longrightarrow> \<forall>n\<in>set ns. CHR ''/'' \<notin> set n \<Longrightarrow>
     split_sep (join_sep ns @ CHR ''/'' # p) = ns @ split_sep p"
  by (induction ns rule: join_sep.induct) (auto simp: split_sep_append)

lemma split_sep_slashfree: "n \<in> set (split_sep p) \<Longrightarrow> CHR ''/'' \<notin> set n"
proof (induction p arbitrary: n)
  case Nil
  then show ?case by simp
next
  case (Cons c cs)
  obtain x xs where r: "split_sep cs = x # xs"
    using split_sep_ne[of cs] by (cases "split_sep cs") auto
  show ?case
  proof (cases "c = CHR ''/''")
    case True
    with Cons show ?thesis by auto
  next
    case False
    with Cons.prems r have "n = c # x \<or> n \<in> set xs" by auto
    with Cons.IH[of x] Cons.IH[of n] r False show ?thesis by auto
  qed
qed

section \<open>Well-formed trees\<close>

lemma wf_root: "wf_tree t \<Longrightarrow> map_of t [] = Some Dir"
  by (simp add: wf_tree_def)

lemma wf_parent:
  "wf_tree t \<Longrightarrow> map_of t p = Some k \<Longrightarrow> p \<noteq> [] \<Longrightarrow>
     map_of t (butlast p) = Some Dir \<and> regular (last p)"
  by (auto simp: wf_tree_def list_all_iff dest!: map_of_SomeD)

lemma wf_snoc:
  "wf_tree t \<Longrightarrow> map_of t (p @ [n]) = Some k \<Longrightarrow> map_of t p = Some Dir \<and> regular n"
  using wf_parent[of t "p @ [n]" k] by simp

lemma wf_prefix:
  "wf_tree t \<Longrightarrow> map_of t (p @ q) = Some k \<Longrightarrow> q \<noteq> [] \<Longrightarrow>
     map_of t p = Some Dir \<and> list_all regular q"
proof (induction q arbitrary: k rule: rev_induct)
  case Nil
  then show ?case by simp
next
  case (snoc x xs)
  from snoc.prems have *: "map_of t (p @ xs) = Some Dir \<and> regular x"
    using wf_snoc[of t "p @ xs" x k] by simp
  show ?case
  proof (cases "xs = []")
    case True
    with * show ?thesis by simp
  next
    case False
    with snoc.IH[of Dir] snoc.prems(1) * show ?thesis by simp
  qed
qed

lemma wf_regular: "wf_tree t \<Longrightarrow> map_of t p = Some k \<Longrightarrow> list_all regular p"
  using wf_prefix[of t "[]" p k] by (cases "p = []") auto

lemma wf_tree_add:
  assumes "wf_tree t" "map_of t p = Some Dir" "regular n" "map_of t (p @ [n]) = None"
  shows "wf_tree ((p @ [n], Dir) # t)"
  using assms by (auto simp: wf_tree_def list_all_iff)

section \<open>Path lookup\<close>

lemma namei_regular: "list_all regular ns \<Longrightarrow> namei t cur ns = Inr d \<Longrightarrow> d = cur @ ns"
proof (induction ns arbitrary: cur)
  case Nil
  then show ?case by (auto split: if_splits)
next
  case (Cons n ns)
  from Cons.prems have "namei t (cur @ [n]) ns = Inr d"
    by (auto simp: regular_def split: option.splits kind.splits if_splits)
  with Cons.IH[of "cur @ [n]"] Cons.prems(1) show ?case by simp
qed

lemma namei_start: "namei t cur cs = Inr d \<Longrightarrow> t cur \<noteq> None"
  by (cases cs) (auto split: option.splits kind.splits if_splits)

lemma namei_start_dir: "namei t cur (c # cs) = Inr d \<Longrightarrow> t cur = Some Dir"
  by (auto split: option.splits kind.splits if_splits)

lemma namei_dir_chain:
  "wf_tree t \<Longrightarrow> map_of t (cur @ ns) = Some Dir \<Longrightarrow> namei (map_of t) cur ns = Inr (cur @ ns)"
proof (induction ns arbitrary: cur)
  case Nil
  then show ?case by simp
next
  case (Cons n ns)
  from wf_prefix[OF Cons.prems(1), of cur "n # ns" Dir] Cons.prems(2)
  have c: "map_of t cur = Some Dir" and r: "regular n" by auto
  from Cons.IH[of "cur @ [n]"] Cons.prems
  have "namei (map_of t) (cur @ [n]) ns = Inr (cur @ n # ns)" by simp
  with c r show ?case by (simp add: regular_def)
qed

lemma resolve_render:
  assumes "wf_tree (nodes s)" "map_of (nodes s) d = Some Dir"
  shows "resolve s (CHR ''/'' # join_sep d) = Inr d"
proof (cases "d = []")
  case True
  with assms show ?thesis by (simp add: resolve_def start_dir_def isabs_def)
next
  case False
  from wf_regular[OF assms] have "\<forall>n\<in>set d. CHR ''/'' \<notin> set n"
    by (auto simp: list_all_iff regular_def)
  with False have "split_sep (join_sep d) = d" by (simp add: split_join)
  moreover have "namei (map_of (nodes s)) [] d = Inr d"
    using namei_dir_chain[OF assms(1), of "[]" d] assms(2) by simp
  ultimately show ?thesis
    using wf_root[OF assms(1)] by (simp add: resolve_def start_dir_def isabs_def)
qed

lemma chdir_render:
  "wf_tree (nodes s) \<Longrightarrow> map_of (nodes s) d = Some Dir \<Longrightarrow>
     chdir (CHR ''/'' # join_sep d) s = (Inr (), s\<lparr>wd := d\<rparr>)"
  by (simp add: chdir_def resolve_render)

section \<open>Creating directories\<close>

lemma mkdirs_mono:
  "mkdirs t cur cs = (r, t') \<Longrightarrow> map_of t p = Some k \<Longrightarrow> map_of t' p = Some k"
proof (induction t cur cs rule: mkdirs.induct)
  case (1 t cur)
  then show ?case by (auto split: option.splits kind.splits)
next
  case (2 t cur c cs)
  have new: "map_of t (cur @ [c]) = None \<Longrightarrow> map_of ((cur @ [c], Dir) # t) p = Some k"
    using "2.prems"(2) by auto
  from 2 new show ?case
    by (auto split: option.splits kind.splits if_splits)
qed

lemma mkdirs_wf:
  "mkdirs t cur cs = (r, t') \<Longrightarrow> wf_tree t \<Longrightarrow> \<forall>c\<in>set cs. CHR ''/'' \<notin> set c \<Longrightarrow> wf_tree t'"
proof (induction t cur cs rule: mkdirs.induct)
  case (1 t cur)
  then show ?case by (auto split: option.splits kind.splits)
next
  case (2 t cur c cs)
  show ?case
  proof (cases "map_of t cur")
    case None
    with 2 show ?thesis by auto
  next
    case (Some k)
    show ?thesis
    proof (cases k)
      case File
      with Some 2 show ?thesis by auto
    next
      case Dir
      note d = Some[unfolded Dir]
      consider (skip) "c = [] \<or> c = ''.''" | (up) "c = ''..''"
        | (name) "c \<noteq> []" "c \<noteq> ''.''" "c \<noteq> ''..''" by blast
      then show ?thesis
      proof cases
        case skip
        with 2 d show ?thesis by auto
      next
        case up
        with 2 d show ?thesis by auto
      next
        case name
        then have reg: "regular c" using "2.prems"(3) by (simp add: regular_def)
        show ?thesis
        proof (cases "map_of t (cur @ [c])")
          case None
          with wf_tree_add[OF "2.prems"(2) d reg] have "wf_tree ((cur @ [c], Dir) # t)" by simp
          with "2.IH"(3)[OF d] name None "2.prems" d show ?thesis by auto
        next
          case (Some k')
          with "2.IH"(4)[OF d] name "2.prems" d show ?thesis by auto
        qed
      qed
    qed
  qed
qed

lemma mkdirs_ok_namei:
  "mkdirs t cur cs = (Inr u, t') \<Longrightarrow>
     \<exists>d. namei (map_of t') cur cs = Inr d \<and> map_of t' d = Some Dir"
proof (induction t cur cs rule: mkdirs.induct)
  case (1 t cur)
  then show ?case by (auto split: option.splits kind.splits)
next
  case (2 t cur c cs)
  from "2.prems" have d: "map_of t cur = Some Dir"
    by (auto split: option.splits kind.splits)
  with mkdirs_mono[OF "2.prems"] have d': "map_of t' cur = Some Dir" by simp
  from "2.prems" d "2.IH"[OF d] d' show ?case
    by (auto split: option.splits if_splits)
qed

lemma mkdirs_existing:
  "namei (map_of t) cur cs = Inr d \<Longrightarrow> map_of t d = Some Dir \<Longrightarrow> mkdirs t cur cs = (Inr (), t)"
proof (induction cs arbitrary: cur)
  case Nil
  then show ?case by (auto split: if_splits)
next
  case (Cons c cs)
  from namei_start_dir[OF Cons.prems(1)] have d: "map_of t cur = Some Dir" .
  show ?case
  proof (cases "c = [] \<or> c = ''.'' \<or> c = ''..''")
    case True
    with Cons d show ?thesis by auto
  next
    case False
    with Cons.prems d have n: "namei (map_of t) (cur @ [c]) cs = Inr d" by auto
    from namei_start[OF n] obtain k where "map_of t (cur @ [c]) = Some k" by auto
    with Cons.IH[OF n Cons.prems(2)] False d show ?thesis by auto
  qed
qed

section \<open>The steps of cd and pushd\<close>

lemma chdir_Inl: "chdir p s = (Inl e, s') \<Longrightarrow> s' = s \<and> (\<exists>k. e = OSError k)"
  by (auto simp: chdir_def split: sum.splits if_splits)

lemma chdir_Inr:
  "chdir p s = (Inr u, s') \<Longrightarrow>
     \<exists>d. resolve s p = Inr d \<and> map_of (nodes s) d = Some Dir \<and> s' = s\<lparr>wd := d\<rparr>"
  by (auto simp: chdir_def split: sum.splits if_splits)

lemma chdir_isdir: "isdir s p \<longleftrightarrow> (\<exists>s'. chdir p s = (Inr (), s'))"
  by (auto simp: chdir_def isdir_def split: sum.splits if_splits)

lemma chdir_lock:
  "chdir p (s\<lparr>PUSHD_LOCK := n\<rparr>) = (case chdir p s of (r, s') \<Rightarrow> (r, s'\<lparr>PUSHD_LOCK := n\<rparr>))"
  by (simp add: chdir_def resolve_def start_dir_def split: sum.splits)

lemma chdir_log:
  "chdir p (s\<lparr>log := l\<rparr>) = (case chdir p s of (r, s') \<Rightarrow> (r, s'\<lparr>log := l\<rparr>))"
  by (simp add: chdir_def resolve_def start_dir_def split: sum.splits)

lemma makedirs_frame:
  "makedirs p s = (r, s') \<Longrightarrow> wd s' = wd s \<and> log s' = log s \<and> PUSHD_LOCK s' = PUSHD_LOCK s"
  by (auto simp: makedirs_def split: if_splits prod.splits sum.splits)

lemma makedirs_Inl: "makedirs p s = (Inl e, s') \<Longrightarrow> \<exists>k. e = OSError k"
  by (auto simp: makedirs_def split: if_splits prod.splits sum.splits)

lemma makedirs_lock:
  "makedirs p (s\<lparr>PUSHD_LOCK := n\<rparr>) = (case makedirs p s of (r, s') \<Rightarrow> (r, s'\<lparr>PUSHD_LOCK := n\<rparr>))"
  by (simp add: makedirs_def start_dir_def split: prod.splits sum.splits)

lemma create_frame:
  "(if create then makedirs p else ret ()) s = (r, s') \<Longrightarrow>
     wd s' = wd s \<and> log s' = log s \<and> PUSHD_LOCK s' = PUSHD_LOCK s"
  by (auto simp: ret_def dest: makedirs_frame split: if_splits)

lemma create_Inl:
  "(if create then makedirs p else ret ()) s = (Inl e, s') \<Longrightarrow>
     wd s' = wd s \<and> (\<exists>k. e = OSError k)"
  by (auto simp: ret_def dest: makedirs_Inl makedirs_frame split: if_splits)

lemma create_lock:
  "(if create then makedirs p else ret ()) (s\<lparr>PUSHD_LOCK := n\<rparr>) =
     (case (if create then makedirs p else ret ()) s of (r, s') \<Rightarrow> (r, s'\<lparr>PUSHD_LOCK := n\<rparr>))"
  by (simp add: makedirs_lock ret_def)

lemma cd_eq:
  "cd path create s =
     (case (if create then makedirs path else ret ()) s of
        (Inl e, s1) \<Rightarrow> (Inl e, s1)
      | (Inr u, s1) \<Rightarrow> chdir path (s1\<lparr>log := log s1 @ [''cd -> '' @ path]\<rparr>))"
  by (simp add: cd_def seq_def logger_debug_def split: prod.splits sum.splits)

lemma pushd_enter_eq:
  "pushd_enter path create s =
     (if map_of (nodes s) (wd s) = Some Dir then
        (case (if create then makedirs (abs_of s path) else ret ()) s of
           (Inl e, s1) \<Rightarrow> (Inl e, s1)
         | (Inr u, s1) \<Rightarrow>
             (case chdir (abs_of s path) (s1\<lparr>log := log s1 @ [''pushd -> '' @ abs_of s path]\<rparr>) of
                (Inl e, s2) \<Rightarrow> (Inl e, s2)
              | (Inr u, s2) \<Rightarrow> (Inr (CHR ''/'' # join_sep (wd s), abs_of s path), s2)))
      else (Inl (OSError FileNotFoundError), s))"
  by (simp add: pushd_enter_def seq_def ret_def getcwd_def abspath_def logger_debug_def
        abs_of_def split: prod.splits sum.splits)

lemma pushd_exit_eq:
  "pushd_exit (c, p) s = chdir c (s\<lparr>log := log s @ [''pushd <- '' @ p]\<rparr>)"
  by (simp add: pushd_exit_def seq_def logger_debug_def)

lemma cd_cases:
  assumes "cd path create s = (r, s')"
  obtains
    (mk) e where "r = Inl e" "(if create then makedirs path else ret ()) s = (Inl e, s')"
  | (ch) s1 where "(if create then makedirs path else ret ()) s = (Inr (), s1)"
      "chdir path (s1\<lparr>log := log s1 @ [''cd -> '' @ path]\<rparr>) = (r, s')"
  using assms unfolding cd_eq by (auto split: prod.splits sum.splits)

lemma pushd_enter_cases:
  assumes "pushd_enter path create s = (r, s')"
  obtains
    (nocwd) "map_of (nodes s) (wd s) \<noteq> Some Dir" "r = Inl (OSError FileNotFoundError)" "s' = s"
  | (mk) e where "map_of (nodes s) (wd s) = Some Dir" "r = Inl e"
      "(if create then makedirs (abs_of s path) else ret ()) s = (Inl e, s')"
  | (ch) s1 e where "map_of (nodes s) (wd s) = Some Dir" "r = Inl e"
      "(if create then makedirs (abs_of s path) else ret ()) s = (Inr (), s1)"
      "chdir (abs_of s path) (s1\<lparr>log := log s1 @ [''pushd -> '' @ abs_of s path]\<rparr>) = (Inl e, s')"
  | (ok) s1 where "map_of (nodes s) (wd s) = Some Dir"
      "r = Inr (CHR ''/'' # join_sep (wd s), abs_of s path)"
      "(if create then makedirs (abs_of s path) else ret ()) s = (Inr (), s1)"
      "chdir (abs_of s path) (s1\<lparr>log := log s1 @ [''pushd -> '' @ abs_of s path]\<rparr>) = (Inr (), s')"
  using assms unfolding pushd_enter_eq
  by (cases "map_of (nodes s) (wd s) = Some Dir";
      cases "(if create then makedirs (abs_of s path) else ret ()) s")
     (auto split: prod.splits sum.splits)

lemma cd_Inl:
  assumes "cd path create s = (Inl e, s')"
  shows "wd s' = wd s \<and> (\<exists>k. e = OSError k)"
  using assms
proof (cases rule: cd_cases)
  case (mk e)
  then show ?thesis using create_Inl by blast
next
  case (ch s1)
  from chdir_Inl[OF ch(2)] create_frame[OF ch(1)] show ?thesis by auto
qed

lemma pushd_enter_Inl:
  assumes "pushd_enter path create s = (Inl e, s')"
  shows "wd s' = wd s \<and> (\<exists>k. e = OSError k)"
  using assms
proof (cases rule: pushd_enter_cases)
  case nocwd
  then show ?thesis by simp
next
  case (mk e)
  then show ?thesis using create_Inl by blast
next
  case (ch s1 e)
  from chdir_Inl[OF ch(4)] create_frame[OF ch(3)] ch(2) show ?thesis by auto
next
  case (ok s1)
  then show ?thesis by simp
qed

lemma pushd_enter_lock_frame:
  assumes "pushd_enter path create s = (r, s')"
  shows "PUSHD_LOCK s' = PUSHD_LOCK s"
  using assms
proof (cases rule: pushd_enter_cases)
  case nocwd
  then show ?thesis by simp
next
  case (mk e)
  then show ?thesis using create_frame by blast
next
  case (ch s1 e)
  from chdir_Inl[OF ch(4)] create_frame[OF ch(3)] show ?thesis by auto
next
  case (ok s1)
  from chdir_Inr[OF ok(4)] create_frame[OF ok(3)] show ?thesis by auto
qed

lemma abs_of_lock: "abs_of (s\<lparr>PUSHD_LOCK := n\<rparr>) p = abs_of s p"
  by (simp add: abs_of_def)

lemma pushd_enter_lock:
  "pushd_enter path create (s\<lparr>PUSHD_LOCK := n\<rparr>) =
     (case pushd_enter path create s of (r, s') \<Rightarrow> (r, s'\<lparr>PUSHD_LOCK := n\<rparr>))"
proof -
  obtain r1 s1 where c: "(if create then makedirs (abs_of s path) else ret ()) s = (r1, s1)"
    by (cases "(if create then makedirs (abs_of s path) else ret ()) s")
  obtain r2 s2 where
    d: "chdir (abs_of s path) (s1\<lparr>log := log s1 @ [''pushd -> '' @ abs_of s path]\<rparr>) = (r2, s2)"
    by (cases "chdir (abs_of s path) (s1\<lparr>log := log s1 @ [''pushd -> '' @ abs_of s path]\<rparr>)")
  have c': "(if create then makedirs (abs_of s path) else ret ()) (s\<lparr>PUSHD_LOCK := n\<rparr>)
              = (r1, s1\<lparr>PUSHD_LOCK := n\<rparr>)"
    using c by (simp add: create_lock del: if_split)
  have sw: "s1\<lparr>PUSHD_LOCK := n, log := log s1 @ [''pushd -> '' @ abs_of s path]\<rparr>
              = s1\<lparr>log := log s1 @ [''pushd -> '' @ abs_of s path], PUSHD_LOCK := n\<rparr>"
    by (cases s1) simp
  have d': "chdir (abs_of s path)
              (s1\<lparr>PUSHD_LOCK := n, log := log s1 @ [''pushd -> '' @ abs_of s path]\<rparr>)
              = (r2, s2\<lparr>PUSHD_LOCK := n\<rparr>)"
    using d chdir_lock[where p = "abs_of s path" and n = n
               and s = "s1\<lparr>log := log s1 @ [''pushd -> '' @ abs_of s path]\<rparr>"]
    unfolding sw by simp
  show ?thesis
    unfolding pushd_enter_eq abs_of_lock
    using c c' d d' by (cases r1; cases r2) simp_all
qed

lemma pushd_eq:
  "pushd path create body s =
     (case pushd_enter path create s of
        (Inl e, s1) \<Rightarrow> (Inl e, s1)
      | (Inr tok, s1) \<Rightarrow>
          (case body (s1\<lparr>PUSHD_LOCK := PUSHD_LOCK s + 1\<rparr>) of (r, s2) \<Rightarrow>
             (case pushd_exit tok s2 of
                (Inl e2, s3) \<Rightarrow> (Inl e2, s3\<lparr>PUSHD_LOCK := PUSHD_LOCK s3 - 1\<rparr>)
              | (Inr u, s3) \<Rightarrow> (r, s3\<lparr>PUSHD_LOCK := PUSHD_LOCK s3 - 1\<rparr>))))"
proof (cases "pushd_enter path create s")
  case (Pair r s1)
  from pushd_enter_lock_frame[OF Pair] have l: "PUSHD_LOCK s1 = PUSHD_LOCK s" .
  have rt: "s1\<lparr>PUSHD_LOCK := Suc (PUSHD_LOCK s)\<rparr>\<lparr>PUSHD_LOCK := PUSHD_LOCK s\<rparr> = s1"
    using l by simp
  show ?thesis
  proof (cases r)
    case (Inl e)
    with Pair rt show ?thesis
      by (simp add: pushd_def with_lock_def with_ctx_def pushd_enter_lock)
  next
    case (Inr tok)
    with Pair show ?thesis
      by (simp add: pushd_def with_lock_def with_ctx_def pushd_enter_lock
               split: prod.splits sum.splits)
  qed
qed

lemma create_nodes:
  assumes "(if create then makedirs p else ret ()) s = (r, s1)"
  shows "(\<forall>q k. map_of (nodes s) q = Some k \<longrightarrow> map_of (nodes s1) q = Some k)
       \<and> (wf_tree (nodes s) \<longrightarrow> wf_tree (nodes s1)) \<and> (\<not> create \<longrightarrow> nodes s1 = nodes s)"
proof (cases "create \<and> p \<noteq> []")
  case False
  with assms show ?thesis by (auto simp: ret_def makedirs_def split: if_splits)
next
  case True
  obtain r' t' where m: "mkdirs (nodes s) (start_dir s p) (split_sep p) = (r', t')"
    by (cases "mkdirs (nodes s) (start_dir s p) (split_sep p)")
  with True assms have n: "nodes s1 = t'"
    by (auto simp: makedirs_def split: sum.splits)
  have "\<forall>c\<in>set (split_sep p). CHR ''/'' \<notin> set c" using split_sep_slashfree by blast
  with mkdirs_wf[OF m] mkdirs_mono[OF m] n True show ?thesis by auto
qed

lemma isabs_initial: "isabs p \<Longrightarrow> initial_slashes p = 1 \<or> initial_slashes p = 2"
  by (simp add: isabs_def initial_slashes_def)

lemma isabs_normpath: "isabs p \<Longrightarrow> isabs (normpath p)"
  using isabs_initial[of p]
  by (auto simp: normpath_def Let_def isabs_def numeral_2_eq_2)

lemma isabs_path_join: "isabs (path_join (CHR ''/'' # a) p)"
  by (simp add: path_join_def isabs_def)

lemma isabs_abs_of: "isabs (abs_of s p)"
  by (simp add: abs_of_def isabs_normpath isabs_path_join)

lemma resolve_abs_wd: "isabs p \<Longrightarrow> resolve (s\<lparr>wd := d\<rparr>) p = resolve s p"
  by (simp add: resolve_def start_dir_def)

lemma resolve_log: "resolve (s\<lparr>log := l\<rparr>) p = resolve s p"
  by (simp add: resolve_def start_dir_def)

lemma pushd_enter_Inr_all:
  assumes "pushd_enter path create s = (Inr tok, s1)"
  shows "map_of (nodes s) (wd s) = Some Dir
    \<and> tok = (CHR ''/'' # join_sep (wd s), abs_of s path)
    \<and> map_of (nodes s1) (wd s1) = Some Dir
    \<and> resolve s1 (abs_of s path) = Inr (wd s1)
    \<and> log s1 = log s @ [''pushd -> '' @ abs_of s path]
    \<and> PUSHD_LOCK s1 = PUSHD_LOCK s
    \<and> (\<forall>q k. map_of (nodes s) q = Some k \<longrightarrow> map_of (nodes s1) q = Some k)
    \<and> (wf_tree (nodes s) \<longrightarrow> wf_tree (nodes s1))
    \<and> (\<not> create \<longrightarrow> nodes s1 = nodes s)"
  using assms
proof (cases rule: pushd_enter_cases)
  case (ok s0)
  from chdir_Inr[OF ok(4)] obtain d where
    d: "resolve (s0\<lparr>log := log s0 @ [''pushd -> '' @ abs_of s path]\<rparr>) (abs_of s path) = Inr d"
       "map_of (nodes s0) d = Some Dir"
       "s1 = s0\<lparr>log := log s0 @ [''pushd -> '' @ abs_of s path], wd := d\<rparr>"
    by auto
  from d(1) d(3) have r: "resolve s1 (abs_of s path) = Inr d"
    by (simp add: resolve_abs_wd[OF isabs_abs_of] resolve_log)
  from create_frame[OF ok(3)] create_nodes[OF ok(3)] ok(1,2) d r show ?thesis by auto
qed auto

lemma pushd_enter_Inr:
  assumes "pushd_enter path create s = (Inr tok, s1)"
  shows "map_of (nodes s) (wd s) = Some Dir"
    and "tok = (CHR ''/'' # join_sep (wd s), abs_of s path)"
    and "map_of (nodes s1) (wd s1) = Some Dir"
    and "resolve s1 (abs_of s path) = Inr (wd s1)"
    and "log s1 = log s @ [''pushd -> '' @ abs_of s path]"
    and "PUSHD_LOCK s1 = PUSHD_LOCK s"
    and "map_of (nodes s) q = Some k \<Longrightarrow> map_of (nodes s1) q = Some k"
    and "wf_tree (nodes s) \<Longrightarrow> wf_tree (nodes s1)"
    and "\<not> create \<Longrightarrow> nodes s1 = nodes s"
  using pushd_enter_Inr_all[OF assms] by blast+

lemma pushd_exit_restores:
  "wf_tree (nodes s2) \<Longrightarrow> map_of (nodes s2) d = Some Dir \<Longrightarrow>
     pushd_exit (CHR ''/'' # join_sep d, p) s2 =
       (Inr (), s2\<lparr>log := log s2 @ [''pushd <- '' @ p], wd := d\<rparr>)"
  by (simp add: pushd_exit_eq chdir_render)

lemma pushd_general:
  assumes "pushd_enter path create s = (Inr tok, s1)"
    and "body (s1\<lparr>PUSHD_LOCK := PUSHD_LOCK s + 1\<rparr>) = (r, s2)"
    and "wf_tree (nodes s2)" and "map_of (nodes s2) (wd s) = Some Dir"
  shows "pushd path create body s =
           (r, s2\<lparr>log := log s2 @ [''pushd <- '' @ abs_of s path], wd := wd s,
                  PUSHD_LOCK := PUSHD_LOCK s2 - 1\<rparr>)"
  using assms pushd_enter_Inr(2)[OF assms(1)]
  by (simp add: pushd_eq pushd_exit_restores)

lemma cwd_eq:
  "map_of (nodes s) (wd s) = Some Dir \<Longrightarrow>
     cwd s = (Inr (normpath (CHR ''/'' # join_sep (wd s))), s)"
  by (simp add: cwd_def seq_def getcwd_def abspath_def isabs_def ret_def)

section \<open>Normalised paths and the nodes they name\<close>

lemma norm_comps_regular_prefix:
  "list_all regular ns \<Longrightarrow> norm_comps True acc (ns @ cs) = norm_comps True (acc @ ns) cs"
  by (induction ns arbitrary: acc) (auto simp: regular_def)

lemma namei_norm:
  "\<forall>x\<in>set cur. x \<noteq> ''..'' \<Longrightarrow> namei t cur cs = Inr d \<Longrightarrow> norm_comps True cur cs = d"
proof (induction cs arbitrary: cur)
  case Nil
  then show ?case by (auto split: if_splits)
next
  case (Cons c cs)
  from namei_start_dir[OF Cons.prems(2)] have dir: "t cur = Some Dir" .
  have bl: "\<forall>x\<in>set (butlast cur). x \<noteq> ''..''"
    using Cons.prems(1) by (auto dest: in_set_butlastD)
  have la: "cur \<noteq> [] \<Longrightarrow> last cur \<noteq> ''..''"
    using Cons.prems(1) by auto
  consider (skip) "c = [] \<or> c = ''.''" | (up) "c = ''..''"
    | (name) "c \<noteq> []" "c \<noteq> ''.''" "c \<noteq> ''..''" by blast
  then show ?case
  proof cases
    case skip
    with Cons dir show ?thesis by auto
  next
    case up
    with Cons.prems dir have "namei t (butlast cur) cs = Inr d" by auto
    from Cons.IH[OF bl this] up la show ?thesis by (cases "cur = []") auto
  next
    case name
    with Cons.prems dir have n: "namei t (cur @ [c]) cs = Inr d" by auto
    have "\<forall>x\<in>set (cur @ [c]). x \<noteq> ''..''" using Cons.prems(1) name by auto
    from Cons.IH[OF this n] name show ?thesis by auto
  qed
qed

lemma norm_comps_regular:
  "list_all regular acc \<Longrightarrow> \<forall>c\<in>set cs. CHR ''/'' \<notin> set c \<Longrightarrow>
     list_all regular (norm_comps True acc cs)"
proof (induction cs arbitrary: acc)
  case Nil
  then show ?case by simp
next
  case (Cons c cs)
  have bl: "list_all regular (butlast acc)"
    using Cons.prems(1) by (auto simp: list_all_iff dest: in_set_butlastD)
  have "c \<noteq> [] \<Longrightarrow> c \<noteq> ''.'' \<Longrightarrow> c \<noteq> ''..'' \<Longrightarrow> regular c"
    using Cons.prems(2) by (simp add: regular_def)
  then have ap: "c \<noteq> [] \<Longrightarrow> c \<noteq> ''.'' \<Longrightarrow> c \<noteq> ''..'' \<Longrightarrow> list_all regular (acc @ [c])"
    using Cons.prems(1) by simp
  have la: "acc \<noteq> [] \<Longrightarrow> last acc \<noteq> ''..''"
    using Cons.prems(1) last_in_set[of acc] by (auto simp: list_all_iff regular_def)
  from Cons.IH[OF bl] Cons.IH[OF Cons.prems(1)] Cons.IH[OF ap] Cons.prems(2) la
  show ?case by auto
qed

lemma join_sep_last:
  "w \<noteq> [] \<Longrightarrow> \<forall>n\<in>set w. n \<noteq> [] \<Longrightarrow> join_sep w \<noteq> [] \<and> last (join_sep w) = last (last w)"
  by (induction w rule: join_sep.induct) auto

lemma regular_last: "regular n \<Longrightarrow> last n \<noteq> CHR ''/''"
  by (metis last_in_set regular_def)

lemma path_join_render:
  assumes "list_all regular w" "\<not> isabs p"
  shows "path_join (CHR ''/'' # join_sep w) p =
           (if w = [] then CHR ''/'' # p else CHR ''/'' # join_sep w @ CHR ''/'' # p)"
proof (cases "w = []")
  case True
  with assms show ?thesis by (simp add: path_join_def)
next
  case False
  from assms(1) have ne: "\<forall>n\<in>set w. n \<noteq> []" by (auto simp: list_all_iff regular_def)
  from False assms(1) have "regular (last w)" by (auto simp: list_all_iff)
  with join_sep_last[OF False ne] have "join_sep w \<noteq> []" "last (join_sep w) \<noteq> CHR ''/''"
    using regular_last by auto
  with False assms(2) show ?thesis by (simp add: path_join_def)
qed

lemma split_full:
  assumes "list_all regular w" "\<not> isabs p"
  shows "split_sep (path_join (CHR ''/'' # join_sep w) p) = [] # w @ split_sep p"
proof (cases "w = []")
  case True
  with path_join_render[OF assms] show ?thesis by simp
next
  case False
  from assms(1) have "\<forall>n\<in>set w. CHR ''/'' \<notin> set n" by (auto simp: list_all_iff regular_def)
  from split_join_append[OF False this] False path_join_render[OF assms] show ?thesis
    by simp
qed

lemma initial_slashes_full:
  assumes "list_all regular w" "\<not> isabs p"
  shows "initial_slashes (path_join (CHR ''/'' # join_sep w) p) = 1"
proof (cases "w = []")
  case True
  with path_join_render[OF assms] assms(2) show ?thesis
    by (cases p) (auto simp: initial_slashes_def isabs_def)
next
  case False
  then obtain n ns where w: "w = n # ns" by (cases w) auto
  with assms(1) have "regular n" by simp
  then obtain c cs where n: "n = c # cs" "c \<noteq> CHR ''/''"
    by (cases n) (auto simp: regular_def)
  have "join_sep w = c # cs @ (if ns = [] then [] else CHR ''/'' # join_sep ns)"
    using w n by (cases ns) auto
  with False path_join_render[OF assms] show ?thesis
    by (simp add: initial_slashes_def n)
qed

lemma target_start:
  assumes "list_all regular (wd s)"
  shows "target s p = norm_comps True (start_dir s p) (split_sep p)"
proof (cases "isabs p")
  case True
  then show ?thesis by (simp add: target_def start_dir_def)
next
  case False
  from norm_comps_regular_prefix[OF assms, of "[]" "split_sep p"] split_full[OF assms False] False
  show ?thesis by (simp add: target_def start_dir_def)
qed

lemma target_regular:
  assumes "list_all regular (wd s)"
  shows "list_all regular (target s p)"
proof -
  have "list_all regular (start_dir s p)" using assms by (simp add: start_dir_def)
  from norm_comps_regular[OF this, of "split_sep p"] split_sep_slashfree
  show ?thesis unfolding target_start[OF assms] by blast
qed

lemma resolve_target:
  assumes "wf_tree (nodes s)" "resolve s p = Inr d"
  shows "norm_comps True (start_dir s p) (split_sep p) = d"
proof -
  from assms(2) have n: "namei (map_of (nodes s)) (start_dir s p) (split_sep p) = Inr d"
    by (auto simp: resolve_def split: if_splits)
  from namei_start[OF n] obtain k where "map_of (nodes s) (start_dir s p) = Some k" by auto
  from wf_regular[OF assms(1) this] have "\<forall>x\<in>set (start_dir s p). x \<noteq> ''..''"
    by (auto simp: list_all_iff regular_def)
  from namei_norm[OF this n] show ?thesis .
qed

lemma normpath_abs:
  assumes "isabs q"
  shows "normpath q =
           replicate (initial_slashes q) (CHR ''/'') @ join_sep (norm_comps True [] (split_sep q))"
proof -
  from assms have ne: "q \<noteq> []" by (auto simp: isabs_def)
  from isabs_initial[OF assms] ne show ?thesis
    by (auto simp: normpath_def Let_def numeral_2_eq_2)
qed

lemma abs_of_form:
  "abs_of s p =
     replicate (initial_slashes (if isabs p then p else path_join (CHR ''/'' # join_sep (wd s)) p))
       (CHR ''/'') @ join_sep (target s p)"
proof (cases "isabs p")
  case True
  with normpath_abs[OF True] show ?thesis by (simp add: abs_of_def target_def)
next
  case False
  with normpath_abs[OF isabs_path_join[of "join_sep (wd s)" p]] show ?thesis
    by (simp add: abs_of_def target_def)
qed

lemma abs_of_rel:
  "list_all regular (wd s) \<Longrightarrow> \<not> isabs p \<Longrightarrow> abs_of s p = CHR ''/'' # join_sep (target s p)"
  using abs_of_form[of s p] by (simp add: initial_slashes_full)

lemma abs_of_single:
  "initial_slashes p \<noteq> 2 \<Longrightarrow> list_all regular (wd s) \<Longrightarrow>
     abs_of s p = CHR ''/'' # join_sep (target s p)"
  using abs_of_form[of s p] isabs_initial[of p] abs_of_rel[of s p]
  by (cases "isabs p") auto

lemma split_replicate:
  "split_sep (replicate n (CHR ''/'') @ x) = replicate n [] @ split_sep x"
  by (induction n) auto

lemma split_abs_of:
  assumes "list_all regular (target s p)"
  shows "\<exists>n. split_sep (abs_of s p) = replicate n [] @ (if target s p = [] then [[]] else target s p)"
proof -
  from assms have "\<forall>n\<in>set (target s p). CHR ''/'' \<notin> set n"
    by (auto simp: list_all_iff regular_def)
  then have "target s p \<noteq> [] \<Longrightarrow> split_sep (join_sep (target s p)) = target s p"
    by (simp add: split_join)
  then show ?thesis
    unfolding abs_of_form split_replicate by (cases "target s p = []") auto
qed

lemma path_comps_abs_of:
  assumes "list_all regular (target s p)"
  shows "path_comps (abs_of s p) = target s p"
proof -
  from split_abs_of[OF assms] obtain n where
    n: "split_sep (abs_of s p) = replicate n [] @ (if target s p = [] then [[]] else target s p)"
    by blast
  have "filter (\<lambda>c. c \<noteq> []) (target s p) = target s p"
    using assms by (auto simp: list_all_iff regular_def intro: filter_True)
  then show ?thesis by (simp add: path_comps_def n)
qed

lemma namei_skip: "t cur = Some Dir \<Longrightarrow> namei t cur (replicate n [] @ cs) = namei t cur cs"
  by (induction n) auto

lemma mkdirs_skip:
  "map_of t cur = Some Dir \<Longrightarrow> mkdirs t cur (replicate n [] @ cs) = mkdirs t cur cs"
  by (induction n) auto

lemma resolve_abs_of:
  assumes "map_of (nodes s1) [] = Some Dir" "list_all regular (target s p)"
  shows "resolve s1 (abs_of s p) = namei (map_of (nodes s1)) [] (target s p)"
proof -
  from split_abs_of[OF assms(2)] obtain n where
    n: "split_sep (abs_of s p) = replicate n [] @ (if target s p = [] then [[]] else target s p)"
    by blast
  have ne: "abs_of s p \<noteq> []" using isabs_abs_of[of s p] by (auto simp: isabs_def)
  show ?thesis
    using assms(1) ne isabs_abs_of[of s p]
    by (simp add: resolve_def start_dir_def n namei_skip)
qed

lemma resolve_abs_of_Inr:
  assumes "map_of (nodes s1) [] = Some Dir" "list_all regular (target s p)"
    "resolve s1 (abs_of s p) = Inr d"
  shows "d = target s p"
  using namei_regular[OF assms(2), of "map_of (nodes s1)" "[]" d] assms
  by (simp add: resolve_abs_of)

lemma normpath_render:
  assumes "list_all regular d"
  shows "normpath (CHR ''/'' # join_sep d) = CHR ''/'' # join_sep d"
proof -
  have nc: "norm_comps True [] ([] # d @ []) = d"
    using norm_comps_regular_prefix[OF assms, of "[]" "[]"] by simp
  show ?thesis
  proof (cases d)
    case Nil
    then show ?thesis by (simp add: normpath_def initial_slashes_def)
  next
    case (Cons n ns)
    with assms have "regular n" by simp
    then obtain c cs where n: "n = c # cs" "c \<noteq> CHR ''/''"
      by (cases n) (auto simp: regular_def)
    have j: "join_sep d = c # cs @ (if ns = [] then [] else CHR ''/'' # join_sep ns)"
      using Cons n by (cases ns) auto
    have i: "initial_slashes (CHR ''/'' # join_sep d) = 1"
      by (simp add: j initial_slashes_def n)
    from assms have "\<forall>n\<in>set d. CHR ''/'' \<notin> set n" by (auto simp: list_all_iff regular_def)
    with Cons have sp: "split_sep (join_sep d) = d" by (simp add: split_join)
    from nc show ?thesis by (simp add: normpath_def i sp)
  qed
qed

lemma seq_InrE:
  assumes "seq m f s = (Inr y, s')"
  obtains x s1 where "m s = (Inr x, s1)" "f x s1 = (Inr y, s')"
  using assms by (auto simp: seq_def split: prod.splits sum.splits)

lemma cwd_Inr:
  assumes "cwd s = (Inr c, s')"
  shows "s' = s" and "map_of (nodes s) (wd s) = Some Dir"
    and "c = normpath (CHR ''/'' # join_sep (wd s))"
  using assms
  by (auto simp: cwd_def seq_def getcwd_def abspath_def isabs_def ret_def split: if_splits)

lemma makedirs_existing:
  assumes "resolve s p = Inr d" "map_of (nodes s) d = Some Dir"
  shows "makedirs p s = (Inr (), s)"
proof -
  from assms(1) have ne: "p \<noteq> []"
    and n: "namei (map_of (nodes s)) (start_dir s p) (split_sep p) = Inr d"
    by (auto simp: resolve_def split: if_splits)
  from mkdirs_existing[OF n assms(2)] ne show ?thesis by (simp add: makedirs_def)
qed

lemma chdir_ok:
  "resolve s p = Inr d \<Longrightarrow> map_of (nodes s) d = Some Dir \<Longrightarrow> chdir p s = (Inr (), s\<lparr>wd := d\<rparr>)"
  by (simp add: chdir_def)

lemma pushd_in_scope:
  assumes "wf_tree (nodes s)" "pushd_enter path create s = (Inr tok, s1)"
  shows "wd s1 = target s path" and "list_all regular (wd s)"
    and "list_all regular (target s path)"
    and "cwd (s1\<lparr>PUSHD_LOCK := n\<rparr>) =
           (Inr (CHR ''/'' # join_sep (target s path)), s1\<lparr>PUSHD_LOCK := n\<rparr>)"
proof -
  note e = pushd_enter_Inr[OF assms(2)]
  from wf_regular[OF assms(1) e(1)] show r: "list_all regular (wd s)" .
  from target_regular[OF r] show t: "list_all regular (target s path)" .
  from wf_root[OF e(8)[OF assms(1)]] have "map_of (nodes s1) [] = Some Dir" .
  from resolve_abs_of_Inr[OF this t e(4)] show w: "wd s1 = target s path" .
  from e(3) w t show "cwd (s1\<lparr>PUSHD_LOCK := n\<rparr>) =
           (Inr (CHR ''/'' # join_sep (target s path)), s1\<lparr>PUSHD_LOCK := n\<rparr>)"
    by (simp add: cwd_eq normpath_render)
qed

lemma chdir_render_Inr:
  assumes "list_all regular d" "chdir (CHR ''/'' # join_sep d) s = (Inr u, s')"
  shows "s' = s\<lparr>wd := d\<rparr>"
proof -
  from chdir_Inr[OF assms(2)] obtain d' where
    r: "resolve s (CHR ''/'' # join_sep d) = Inr d'" and s': "s' = s\<lparr>wd := d'\<rparr>" by auto
  from r have n: "namei (map_of (nodes s)) [] ([] # split_sep (join_sep d)) = Inr d'"
    by (simp add: resolve_def start_dir_def isabs_def)
  from namei_start_dir[OF n] have root: "map_of (nodes s) [] = Some Dir" .
  from assms(1) have sf: "\<forall>n\<in>set d. CHR ''/'' \<notin> set n" by (auto simp: list_all_iff regular_def)
  have "d' = d"
  proof (cases "d = []")
    case True
    with n root show ?thesis by (auto split: if_splits)
  next
    case False
    with sf have "split_sep (join_sep d) = d" by (simp add: split_join)
    with n root have "namei (map_of (nodes s)) [] d = Inr d'" by simp
    from namei_regular[OF assms(1) this] show ?thesis by simp
  qed
  with s' show ?thesis by simp
qed

lemma pushd_returns:
  assumes "wf_tree (nodes s)" "pushd path create body s = (Inr x, s')"
  obtains tok s1 s2 where "pushd_enter path create s = (Inr tok, s1)"
    "body (s1\<lparr>PUSHD_LOCK := PUSHD_LOCK s + 1\<rparr>) = (Inr x, s2)"
    "wd s' = wd s" "nodes s' = nodes s2"
proof -
  obtain r1 s1 where e: "pushd_enter path create s = (r1, s1)"
    by (cases "pushd_enter path create s")
  obtain r2 s2 where b: "body (s1\<lparr>PUSHD_LOCK := PUSHD_LOCK s + 1\<rparr>) = (r2, s2)"
    by (cases "body (s1\<lparr>PUSHD_LOCK := PUSHD_LOCK s + 1\<rparr>)")
  from assms(2) e obtain tok where r1: "r1 = Inr tok"
    by (cases r1) (auto simp: pushd_eq)
  note i = pushd_enter_Inr[OF e[unfolded r1]]
  obtain r3 s3 where x: "pushd_exit tok s2 = (r3, s3)" by (cases "pushd_exit tok s2")
  from assms(2) e r1 b x have r3: "r3 = Inr ()" and r2: "r2 = Inr x"
    and s': "s' = s3\<lparr>PUSHD_LOCK := PUSHD_LOCK s3 - 1\<rparr>"
    by (cases r3; auto simp: pushd_eq)+
  from x r3 i(2)
  have c: "chdir (CHR ''/'' # join_sep (wd s)) (s2\<lparr>log := log s2 @ [''pushd <- '' @ abs_of s path]\<rparr>)
             = (Inr (), s3)"
    by (simp add: pushd_exit_eq)
  from chdir_render_Inr[OF wf_regular[OF assms(1) i(1)] c] s'
  have "wd s' = wd s" "nodes s' = nodes s2" by simp_all
  with e r1 b r2 that show thesis by blast
qed

lemma mkdirs_creates:
  "list_all regular ns \<Longrightarrow> map_of t cur = Some Dir \<Longrightarrow>
   \<forall>n \<le> length ns. map_of t (cur @ take n ns) \<noteq> Some File \<Longrightarrow>
     \<exists>t'. mkdirs t cur ns = (Inr (), t') \<and> map_of t' (cur @ ns) = Some Dir"
proof (induction ns arbitrary: t cur)
  case Nil
  then show ?case by simp
next
  case (Cons n ns)
  from Cons.prems(1) have rn: "regular n" and rs: "list_all regular ns" by simp_all
  from rn have reg: "n \<noteq> []" "n \<noteq> ''.''" "n \<noteq> ''..''" by (simp_all add: regular_def)
  have nf: "map_of t (cur @ [n]) \<noteq> Some File"
    using Cons.prems(3)[rule_format, of 1] by simp
  have rest: "\<forall>m \<le> length ns. map_of t ((cur @ [n]) @ take m ns) \<noteq> Some File"
  proof (intro allI impI)
    fix m assume "m \<le> length ns"
    with Cons.prems(3)[rule_format, of "Suc m"] show "map_of t ((cur @ [n]) @ take m ns) \<noteq> Some File"
      by simp
  qed
  show ?case
  proof (cases "map_of t (cur @ [n])")
    case None
    let ?t = "(cur @ [n], Dir) # t"
    have d: "map_of ?t (cur @ [n]) = Some Dir" by simp
    have r: "\<forall>m \<le> length ns. map_of ?t ((cur @ [n]) @ take m ns) \<noteq> Some File"
      using rest by auto
    from Cons.IH[OF rs d r] None Cons.prems(2) reg show ?thesis by simp
  next
    case (Some k)
    with nf have d: "map_of t (cur @ [n]) = Some Dir" by (cases k) auto
    from Cons.IH[OF rs d rest] d Cons.prems(2) reg show ?thesis by simp
  qed
qed

lemma makedirs_abs_of:
  assumes "wf_tree (nodes s)" "list_all regular (target s p)"
    "\<forall>n \<le> length (target s p). map_of (nodes s) (take n (target s p)) \<noteq> Some File"
  shows "\<exists>s1. makedirs (abs_of s p) s = (Inr (), s1) \<and> map_of (nodes s1) (target s p) = Some Dir
           \<and> wf_tree (nodes s1) \<and> log s1 = log s \<and> wd s1 = wd s"
proof -
  from split_abs_of[OF assms(2)] obtain k where
    sp: "split_sep (abs_of s p) = replicate k [] @ (if target s p = [] then [[]] else target s p)"
    by blast
  have ne: "abs_of s p \<noteq> []" using isabs_abs_of[of s p] by (auto simp: isabs_def)
  note root = wf_root[OF assms(1)]
  from mkdirs_creates[OF assms(2), of "nodes s" "[]"] root assms(3)
  obtain t' where m: "mkdirs (nodes s) [] (target s p) = (Inr (), t')"
    and d: "map_of t' (target s p) = Some Dir" by auto
  have "mkdirs (nodes s) [] (split_sep (abs_of s p)) = (Inr (), t')"
    using m root by (cases "target s p = []") (simp_all add: sp mkdirs_skip)
  then have mk: "makedirs (abs_of s p) s = (Inr (), s\<lparr>nodes := t'\<rparr>)"
    using ne isabs_abs_of[of s p] by (simp add: makedirs_def start_dir_def)
  have "\<forall>c\<in>set (target s p). CHR ''/'' \<notin> set c"
    using assms(2) by (auto simp: list_all_iff regular_def)
  from mkdirs_wf[OF m assms(1) this] have "wf_tree t'" .
  with mk d show ?thesis by simp
qed

lemma pushd_enter_creates:
  assumes "wf_tree (nodes s)" "map_of (nodes s) (wd s) = Some Dir"
    "\<forall>n \<le> length (target s path). map_of (nodes s) (take n (target s path)) \<noteq> Some File"
  shows "\<exists>tok s1. pushd_enter path True s = (Inr tok, s1)"
proof -
  from wf_regular[OF assms(1,2)] have rw: "list_all regular (wd s)" .
  note rt = target_regular[OF rw, of path]
  from makedirs_abs_of[OF assms(1) rt assms(3)] obtain s1 where
    mk: "makedirs (abs_of s path) s = (Inr (), s1)"
    and d: "map_of (nodes s1) (target s path) = Some Dir" and wf1: "wf_tree (nodes s1)" by blast
  let ?m = "s1\<lparr>log := log s1 @ [''pushd -> '' @ abs_of s path]\<rparr>"
  have "resolve s1 (abs_of s path) = namei (map_of (nodes s1)) [] (target s path)"
    using resolve_abs_of[OF wf_root[OF wf1] rt] .
  with namei_dir_chain[OF wf1, of "[]" "target s path"] d
  have "resolve s1 (abs_of s path) = Inr (target s path)" by simp
  with d have "chdir (abs_of s path) ?m = (Inr (), ?m\<lparr>wd := target s path\<rparr>)"
    by (intro chdir_ok) (simp_all add: resolve_log)
  with mk assms(2) show ?thesis by (simp add: pushd_enter_eq)
qed

section \<open>The fallback script and the baking of options\<close>

lemma read_script_script:
  "plain name \<Longrightarrow>
     read_script (script name) =
       Some [Import ''sys'', Import ''click'',
             Secho (''Command `'' @ name @ ''` not found'') ''red'', Exit 1]"
  by (simp add: read_script_def script_def Let_def)

lemma spawn_fallback:
  "which env (sys_executable env) = Some py \<Longrightarrow> plain name \<Longrightarrow>
     spawn env py (''-c'' # script name # cargs) = (1, ''Command `'' @ name @ ''` not found'')"
  by (simp add: spawn_def read_script_script)

lemma extract_call_args_Nil: "extract_call_args env [] = Inr ([], [])"
  by (simp add: extract_call_args_def)

lemma bake_Nil:
  "bake env c args [] = Inr (c\<lparr>baked_args := baked_args c @ args, baked_kwargs := baked_kwargs c\<rparr>)"
  by (simp add: bake_def extract_call_args_Nil)

lemma app_fallback:
  assumes "which env name = None" and "which env (sys_executable env) = Some py"
  shows "app env name args out err tee kwargs =
           Inr \<lparr>program = py, baked_args = [''-c'', script name], baked_kwargs = []\<rparr>"
  using assms by (simp add: app_def Command_def bake_Nil)

text \<open>
  The hold count of the lock in the running thread: around a body that leaves the
  count as it found it, \<^verbatim>\<open>with_lock\<close> and so \<^verbatim>\<open>pushd\<close> leave the count as they found it,
  on every path out of the \<^verbatim>\<open>with\<close> statement; the body runs with the count one higher.
\<close>

lemma with_lock_balanced:
  assumes "\<And>s0. PUSHD_LOCK (snd (inner s0)) = PUSHD_LOCK s0"
  shows "PUSHD_LOCK (snd (with_lock inner s)) = PUSHD_LOCK s"
proof -
  obtain r s1 where i: "inner (s\<lparr>PUSHD_LOCK := PUSHD_LOCK s + 1\<rparr>) = (r, s1)"
    by (cases "inner (s\<lparr>PUSHD_LOCK := PUSHD_LOCK s + 1\<rparr>)")
  from assms[of "s\<lparr>PUSHD_LOCK := PUSHD_LOCK s + 1\<rparr>"] i
  have "PUSHD_LOCK s1 = PUSHD_LOCK s + 1" by simp
  with i show ?thesis by (simp add: with_lock_def)
qed

lemma chdir_lock_frame: "chdir p s = (r, s') \<Longrightarrow> PUSHD_LOCK s' = PUSHD_LOCK s"
  by (auto simp: chdir_def split: sum.splits if_splits)

lemma pushd_lock_balanced:
  assumes "\<And>s0. PUSHD_LOCK (snd (body s0)) = PUSHD_LOCK s0"
  shows "PUSHD_LOCK (snd (pushd path create body s)) = PUSHD_LOCK s"
proof -
  obtain r1 s1 where e: "pushd_enter path create s = (r1, s1)"
    by (cases "pushd_enter path create s")
  note l1 = pushd_enter_lock_frame[OF e]
  show ?thesis
  proof (cases r1)
    case (Inl x)
    with e l1 show ?thesis by (simp add: pushd_eq)
  next
    case (Inr tok)
    obtain c p where tok: "tok = (c, p)" by (cases tok)
    obtain r2 s2 where b: "body (s1\<lparr>PUSHD_LOCK := PUSHD_LOCK s + 1\<rparr>) = (r2, s2)"
      by (cases "body (s1\<lparr>PUSHD_LOCK := PUSHD_LOCK s + 1\<rparr>)")
    from assms[of "s1\<lparr>PUSHD_LOCK := PUSHD_LOCK s + 1\<rparr>"] b
    have l2: "PUSHD_LOCK s2 = PUSHD_LOCK s + 1" by simp
    obtain r3 s3 where x: "chdir c (s2\<lparr>log := log s2 @ [''pushd <- '' @ p]\<rparr>) = (r3, s3)"
      by (cases "chdir c (s2\<lparr>log := log s2 @ [''pushd <- '' @ p]\<rparr>)")
    have "PUSHD_LOCK s3 = PUSHD_LOCK s2"
      using chdir_lock_frame[OF x] by simp
    with e Inr tok b x l2 show ?thesis
      by (cases r3) (simp_all add: pushd_eq pushd_exit_eq)
  qed
qed

section \<open>Claims about cd and pushd\<close>

text \<open>
  Claim C5. \<^verbatim>\<open>cd\<close> and \<^verbatim>\<open>pushd\<close> fail atomically with respect to the working directory.
  Whenever \<^verbatim>\<open>cd\<close> or the entry of \<^verbatim>\<open>pushd\<close> raises, the exception is an \<^verbatim>\<open>OSError\<close> and the
  working directory is the one before the call; a failed entry of \<^verbatim>\<open>pushd\<close> is the outcome
  of the whole \<^verbatim>\<open>with\<close> statement, whose body does not run. When the creation of the
  directory fails, that failure is the outcome of the call and nothing after it is done.
  \<^verbatim>\<open>cd\<close> without \<^verbatim>\<open>create\<close> on a path that is not an existing directory raises an
  \<^verbatim>\<open>OSError\<close>, having only written its debug record.
\<close>

theorem cd_pushd_fail_atomic:
  "(cd path create s = (Inl e, s') \<longrightarrow> wd s' = wd s \<and> (\<exists>k. e = OSError k))
   \<and> (pushd_enter path create s = (Inl e, s') \<longrightarrow>
        wd s' = wd s \<and> (\<exists>k. e = OSError k) \<and> pushd path create body s = (Inl e, s'))
   \<and> (makedirs path s = (Inl e, s') \<longrightarrow> cd path True s = (Inl e, s'))
   \<and> (map_of (nodes s) (wd s) = Some Dir \<and> makedirs (abs_of s path) s = (Inl e, s') \<longrightarrow>
        pushd_enter path True s = (Inl e, s'))
   \<and> (\<not> isdir s path \<longrightarrow>
        (\<exists>k. cd path False s = (Inl (OSError k), s\<lparr>log := log s @ [''cd -> '' @ path]\<rparr>)))"
proof -
  have p1: "cd path create s = (Inl e, s') \<longrightarrow> wd s' = wd s \<and> (\<exists>k. e = OSError k)"
    using cd_Inl by blast
  have p2: "pushd_enter path create s = (Inl e, s') \<longrightarrow>
        wd s' = wd s \<and> (\<exists>k. e = OSError k) \<and> pushd path create body s = (Inl e, s')"
  proof
    assume a: "pushd_enter path create s = (Inl e, s')"
    from pushd_enter_Inl[OF a] a
    show "wd s' = wd s \<and> (\<exists>k. e = OSError k) \<and> pushd path create body s = (Inl e, s')"
      by (simp add: pushd_eq)
  qed
  have p3: "makedirs path s = (Inl e, s') \<longrightarrow> cd path True s = (Inl e, s')"
    by (simp add: cd_eq)
  have p4: "map_of (nodes s) (wd s) = Some Dir \<and> makedirs (abs_of s path) s = (Inl e, s') \<longrightarrow>
        pushd_enter path True s = (Inl e, s')"
    by (simp add: pushd_enter_eq)
  have p5: "\<not> isdir s path \<longrightarrow>
        (\<exists>k. cd path False s = (Inl (OSError k), s\<lparr>log := log s @ [''cd -> '' @ path]\<rparr>))"
  proof
    let ?s = "s\<lparr>log := log s @ [''cd -> '' @ path]\<rparr>"
    assume "\<not> isdir s path"
    then have "\<not> isdir ?s path"
      by (simp add: isdir_def resolve_log split: sum.splits)
    then obtain r s1 where c: "chdir path ?s = (Inl r, s1)"
      using chdir_isdir[of ?s path]
      by (cases "chdir path ?s"; cases "fst (chdir path ?s)") auto
    from chdir_Inl[OF c] c
    show "\<exists>k. cd path False s = (Inl (OSError k), ?s)"
      by (auto simp: cd_eq ret_def)
  qed
  show ?thesis by (intro conjI; fact)
qed

theorem cd_pushd_fail_atomic_witness:
  "cd ''/new/../etc/x'' True st0 =
     (Inl (OSError NotADirectoryError), st0\<lparr>nodes := ([''new''], Dir) # nodes st0\<rparr>)
   \<and> makedirs ''/new/../etc/x'' st0 =
     (Inl (OSError NotADirectoryError), st0\<lparr>nodes := ([''new''], Dir) # nodes st0\<rparr>)
   \<and> wd (st0\<lparr>nodes := ([''new''], Dir) # nodes st0\<rparr>) = wd st0
   \<and> map_of (nodes st0) (wd st0) = Some Dir
   \<and> makedirs (abs_of st0 ''/new/../etc/x'') st0 = (Inl (OSError NotADirectoryError), st0)
   \<and> pushd_enter ''/new/../etc/x'' True st0 = (Inl (OSError NotADirectoryError), st0)
   \<and> pushd ''/new/../etc/x'' True cwd st0 = (Inl (OSError NotADirectoryError), st0)
   \<and> \<not> isdir st0 ''missing/nested/dir''
   \<and> (\<exists>k. cd ''missing/nested/dir'' False st0 =
          (Inl (OSError k), st0\<lparr>log := log st0 @ [''cd -> '' @ ''missing/nested/dir'']\<rparr>))"
proof -
  let ?e = "OSError NotADirectoryError"
  let ?s1 = "st0\<lparr>nodes := ([''new''], Dir) # nodes st0\<rparr>"
  note a = cd_pushd_fail_atomic[where path = "''/new/../etc/x''" and create = True and s = st0
      and e = ?e and s' = ?s1 and body = cwd]
  note b = cd_pushd_fail_atomic[where path = "''/new/../etc/x''" and create = True and s = st0
      and e = ?e and s' = st0 and body = cwd]
  note c = cd_pushd_fail_atomic[where path = "''missing/nested/dir''" and create = False
      and s = st0 and e = ?e and s' = st0 and body = cwd]
  have h1: "makedirs ''/new/../etc/x'' st0 = (Inl ?e, ?s1)" by code_simp
  have h2: "map_of (nodes st0) (wd st0) = Some Dir" by code_simp
  have h3: "makedirs (abs_of st0 ''/new/../etc/x'') st0 = (Inl ?e, st0)" by code_simp
  have h4: "\<not> isdir st0 ''missing/nested/dir''" by code_simp
  from a h1 have c1: "cd ''/new/../etc/x'' True st0 = (Inl ?e, ?s1)" by blast
  with a have c2: "wd ?s1 = wd st0" by blast
  from b h2 h3 have c3: "pushd_enter ''/new/../etc/x'' True st0 = (Inl ?e, st0)" by blast
  with b have c4: "pushd ''/new/../etc/x'' True cwd st0 = (Inl ?e, st0)" by blast
  from c h4 have c5: "\<exists>k. cd ''missing/nested/dir'' False st0 =
          (Inl (OSError k), st0\<lparr>log := log st0 @ [''cd -> '' @ ''missing/nested/dir'']\<rparr>)"
    by blast
  from h1 h2 h3 h4 c1 c2 c3 c4 c5 show ?thesis by blast
qed

text \<open>
  Claim C3. Round trip. In a well-formed tree, whenever the entry of \<^verbatim>\<open>pushd(P)\<close>
  succeeds (with or without \<^verbatim>\<open>create\<close>, for every path \<^verbatim>\<open>P\<close>, with a trailing separator
  or not), the \<^verbatim>\<open>with\<close> statement around an empty body returns, and \<^verbatim>\<open>cwd()\<close> after it is
  the value \<^verbatim>\<open>cwd()\<close> had immediately before it.
\<close>

theorem pushd_roundtrip:
  assumes "wf_tree (nodes s)" and "pushd_enter P create s = (Inr tok, s1)"
  shows "\<exists>c s'. pushd P create (ret ()) s = (Inr (), s') \<and> fst (cwd s) = Inr c
             \<and> fst (cwd s') = Inr c \<and> wd s' = wd s"
proof -
  let ?s2 = "s1\<lparr>PUSHD_LOCK := PUSHD_LOCK s + 1\<rparr>"
  note e = pushd_enter_Inr[OF assms(2)]
  have wf2: "wf_tree (nodes ?s2)" using e(8)[OF assms(1)] by simp
  have d2: "map_of (nodes ?s2) (wd s) = Some Dir" using e(7)[OF e(1)] by simp
  have b: "ret () ?s2 = (Inr (), ?s2)" by (simp add: ret_def)
  from pushd_general[where body = "ret ()", OF assms(2) b wf2 d2] e(1) d2 show ?thesis
    by (simp add: cwd_eq)
qed

theorem pushd_roundtrip_witness:
  "wf_tree (nodes st0) \<and>
   pushd_enter ''x/y'' True st0 =
     (Inr (''/home'', ''/home/x/y''),
      st0\<lparr>nodes := ([''home'', ''x'', ''y''], Dir) # ([''home'', ''x''], Dir) # nodes st0,
          log := [''pushd -> /home/x/y''], wd := [''home'', ''x'', ''y'']\<rparr>) \<and>
   (\<exists>c s'. pushd ''x/y'' True (ret ()) st0 = (Inr (), s') \<and> fst (cwd st0) = Inr c
             \<and> fst (cwd s') = Inr c \<and> wd s' = wd st0)"
proof -
  have h1: "wf_tree (nodes st0)" by code_simp
  have h2: "pushd_enter ''x/y'' True st0 =
     (Inr (''/home'', ''/home/x/y''),
      st0\<lparr>nodes := ([''home'', ''x'', ''y''], Dir) # ([''home'', ''x''], Dir) # nodes st0,
          log := [''pushd -> /home/x/y''], wd := [''home'', ''x'', ''y'']\<rparr>)"
    by code_simp
  from pushd_roundtrip[OF h1 h2] h1 h2 show ?thesis by blast
qed

text \<open>
  Claim C10, as the code has it. The entry of a \<^verbatim>\<open>pushd\<close> scope in a well-formed tree
  records the absolute working directory of that moment, and the exit changes to it
  whatever the body did, return or raise, change the working directory again or not.
  When the recorded directory can still be entered as the body ends, the \<^verbatim>\<open>with\<close>
  statement ends with the outcome of the body, the working directory is the recorded one
  and \<^verbatim>\<open>cwd()\<close> returns the recorded path. When it cannot, the \<^verbatim>\<open>OSError\<close> of the restoring
  \<^verbatim>\<open>chdir\<close> leaves the statement and the working directory stays where the body left it.
\<close>

theorem pushd_restores_snapshot:
  assumes "wf_tree (nodes s)" and "pushd_enter path create s = (Inr tok, s1)"
    and "body (s1\<lparr>PUSHD_LOCK := PUSHD_LOCK s + 1\<rparr>) = (r, s2)"
  shows "fst tok = CHR ''/'' # join_sep (wd s)
       \<and> (isdir s2 (fst tok) \<longrightarrow>
            (\<exists>s'. pushd path create body s = (r, s') \<and> wd s' = wd s
                  \<and> fst (cwd s') = Inr (fst tok)))
       \<and> (\<not> isdir s2 (fst tok) \<longrightarrow>
            (\<exists>k s'. pushd path create body s = (Inl (OSError k), s') \<and> wd s' = wd s2))"
proof -
  let ?c = "CHR ''/'' # join_sep (wd s)"
  let ?l = "log s2 @ [''pushd <- '' @ abs_of s path]"
  note e = pushd_enter_Inr[OF assms(2)]
  from wf_regular[OF assms(1) e(1)] have rw: "list_all regular (wd s)" .
  have t: "tok = (?c, abs_of s path)" using e(2) .
  have yes: "\<exists>s'. pushd path create body s = (r, s') \<and> wd s' = wd s \<and> fst (cwd s') = Inr ?c"
    if "isdir s2 ?c"
  proof -
    from that chdir_isdir[of s2 ?c] obtain s3 where c: "chdir ?c s2 = (Inr (), s3)" by blast
    from chdir_render_Inr[OF rw c] have s3: "s3 = s2\<lparr>wd := wd s\<rparr>" .
    from chdir_Inr[OF c] s3 have d: "map_of (nodes s2) (wd s) = Some Dir"
      by (metis os_state.select_convs(2) os_state.surjective os_state.update_convs(2))
    have x: "pushd_exit tok s2 = (Inr (), s2\<lparr>log := ?l, wd := wd s\<rparr>)"
      using c s3 by (simp add: t pushd_exit_eq chdir_log)
    from assms(2,3) x d rw show ?thesis
      by (simp add: pushd_eq cwd_eq normpath_render)
  qed
  have no: "\<exists>k s'. pushd path create body s = (Inl (OSError k), s') \<and> wd s' = wd s2"
    if "\<not> isdir s2 ?c"
  proof -
    obtain x s3 where c: "chdir ?c s2 = (x, s3)" by (cases "chdir ?c s2")
    with that chdir_isdir[of s2 ?c] obtain e2 where x: "x = Inl e2" by (cases x) auto
    from chdir_Inl[OF c[unfolded x]] obtain k where k: "e2 = OSError k" and s3: "s3 = s2" by auto
    have "pushd_exit tok s2 = (Inl (OSError k), s2\<lparr>log := ?l\<rparr>)"
      using c x k s3 by (simp add: t pushd_exit_eq chdir_log)
    with assms(2,3) show ?thesis by (simp add: pushd_eq)
  qed
  from t yes no show ?thesis by simp
qed

theorem pushd_restores_snapshot_witness:
  "wf_tree (nodes st0)
   \<and> pushd_enter ''u'' False st0 =
     (Inr (''/home'', ''/home/u''), st0\<lparr>log := [''pushd -> /home/u''], wd := [''home'', ''u'']\<rparr>)
   \<and> cd_and_raise (st0\<lparr>log := [''pushd -> /home/u''], wd := [''home'', ''u''],
                        PUSHD_LOCK := PUSHD_LOCK st0 + 1\<rparr>) =
     (Inl (Exception ''boom''),
      st0\<lparr>log := [''pushd -> /home/u'', ''cd -> /srv''], wd := [''srv''], PUSHD_LOCK := 1\<rparr>)
   \<and> isdir (st0\<lparr>log := [''pushd -> /home/u'', ''cd -> /srv''], wd := [''srv''],
                PUSHD_LOCK := 1\<rparr>) ''/home''
   \<and> (\<exists>s'. pushd ''u'' False cd_and_raise st0 = (Inl (Exception ''boom''), s')
            \<and> wd s' = [''home''] \<and> fst (cwd s') = Inr ''/home'')
   \<and> pushd_enter ''/srv'' False st0 =
     (Inr (''/home'', ''/srv''), st0\<lparr>log := [''pushd -> /srv''], wd := [''srv'']\<rparr>)
   \<and> rmtree [''home''] (st0\<lparr>log := [''pushd -> /srv''], wd := [''srv''],
                        PUSHD_LOCK := PUSHD_LOCK st0 + 1\<rparr>) =
     (Inr (),
      st0\<lparr>nodes := [([], Dir), ([''srv''], Dir), ([''etc''], File)],
          log := [''pushd -> /srv''], wd := [''srv''], PUSHD_LOCK := 1\<rparr>)
   \<and> \<not> isdir (st0\<lparr>nodes := [([], Dir), ([''srv''], Dir), ([''etc''], File)],
                  log := [''pushd -> /srv''], wd := [''srv''], PUSHD_LOCK := 1\<rparr>) ''/home''
   \<and> (\<exists>k s'. pushd ''/srv'' False (rmtree [''home'']) st0 = (Inl (OSError k), s')
            \<and> wd s' = [''srv''])"
proof -
  let ?a1 = "st0\<lparr>log := [''pushd -> /home/u''], wd := [''home'', ''u'']\<rparr>"
  let ?a2 = "st0\<lparr>log := [''pushd -> /home/u'', ''cd -> /srv''], wd := [''srv''], PUSHD_LOCK := 1\<rparr>"
  let ?b1 = "st0\<lparr>log := [''pushd -> /srv''], wd := [''srv'']\<rparr>"
  let ?b2 = "st0\<lparr>nodes := [([], Dir), ([''srv''], Dir), ([''etc''], File)],
          log := [''pushd -> /srv''], wd := [''srv''], PUSHD_LOCK := 1\<rparr>"
  have wf: "wf_tree (nodes st0)" by code_simp
  have a1: "pushd_enter ''u'' False st0 = (Inr (''/home'', ''/home/u''), ?a1)" by code_simp
  have a2: "cd_and_raise (?a1\<lparr>PUSHD_LOCK := PUSHD_LOCK st0 + 1\<rparr>) = (Inl (Exception ''boom''), ?a2)"
    by code_simp
  have a3: "isdir ?a2 ''/home''" by code_simp
  have b1: "pushd_enter ''/srv'' False st0 = (Inr (''/home'', ''/srv''), ?b1)" by code_simp
  have b2: "rmtree [''home''] (?b1\<lparr>PUSHD_LOCK := PUSHD_LOCK st0 + 1\<rparr>) = (Inr (), ?b2)"
    by code_simp
  have b3: "\<not> isdir ?b2 ''/home''" by code_simp
  have w: "wd st0 = [''home'']" by code_simp
  from pushd_restores_snapshot[where body = cd_and_raise, OF wf a1 a2] a3 w
  have ca: "\<exists>s'. pushd ''u'' False cd_and_raise st0 = (Inl (Exception ''boom''), s')
            \<and> wd s' = [''home''] \<and> fst (cwd s') = Inr ''/home''"
    by auto
  from pushd_restores_snapshot[where body = "rmtree [''home'']", OF wf b1 b2] b3
  have cb: "\<exists>k s'. pushd ''/srv'' False (rmtree [''home'']) st0 = (Inl (OSError k), s')
            \<and> wd s' = [''srv'']"
    by auto
  from wf a1 a2 a3 ca b1 b2 b3 cb show ?thesis by simp
qed

text \<open>
  Claim C10 as stated fails. The process is in \<^verbatim>\<open>/home\<close> and enters \<^verbatim>\<open>pushd('/srv')\<close>; the
  body removes \<^verbatim>\<open>/home\<close> and returns. The exit cannot change back: the working directory
  after the scope is \<^verbatim>\<open>/srv\<close>, not the recorded \<^verbatim>\<open>/home\<close>.
\<close>

theorem pushd_snapshot_lost:
  "pushd_enter ''/srv'' False st0 =
     (Inr (''/home'', ''/srv''), st0\<lparr>log := [''pushd -> /srv''], wd := [''srv'']\<rparr>)
   \<and> pushd ''/srv'' False (rmtree [''home'']) st0 =
     (Inl (OSError FileNotFoundError),
      st0\<lparr>nodes := [([], Dir), ([''srv''], Dir), ([''etc''], File)],
          log := [''pushd -> /srv'', ''pushd <- /srv''], wd := [''srv'']\<rparr>)
   \<and> wd (snd (pushd ''/srv'' False (rmtree [''home'']) st0)) \<noteq> [''home'']"
  by code_simp

text \<open>
  Claim C2, as the code has it. When the body of a \<^verbatim>\<open>pushd\<close> scope raises, the exit
  block still runs: it writes its debug record and tries to change back to the recorded
  directory. If that directory can be entered, the working directory is restored and the
  exception of the body leaves the \<^verbatim>\<open>with\<close> statement. If it cannot, the \<^verbatim>\<open>OSError\<close> of the
  failed restoration leaves the statement in place of the exception of the body, the
  working directory stays where the body left it, and the log holds nothing about the
  failed restoration beyond the debug record written before it.
\<close>

theorem pushd_body_failure:
  assumes "pushd_enter path create s = (Inr (c0, p), s1)"
    and "body (s1\<lparr>PUSHD_LOCK := PUSHD_LOCK s + 1\<rparr>) = (Inl e, s2)"
  shows "\<exists>r s'. pushd path create body s = (Inl r, s')
           \<and> log s' = log s2 @ [''pushd <- '' @ p]
           \<and> (isdir s2 c0 \<longrightarrow> r = e \<and> resolve s2 c0 = Inr (wd s'))
           \<and> (\<not> isdir s2 c0 \<longrightarrow> (\<exists>k. r = OSError k) \<and> wd s' = wd s2)"
proof (cases "chdir c0 s2")
  case (Pair x s3)
  show ?thesis
  proof (cases x)
    case (Inl e2)
    with Pair chdir_Inl[of c0 s2 e2 s3] chdir_isdir[of s2 c0] assms show ?thesis
      by (auto simp: pushd_eq pushd_exit_eq chdir_log)
  next
    case (Inr u)
    with Pair chdir_Inr[of c0 s2 u s3] chdir_isdir[of s2 c0] assms show ?thesis
      by (auto simp: pushd_eq pushd_exit_eq chdir_log)
  qed
qed

theorem pushd_body_failure_witness:
  "pushd_enter ''u'' False st0 =
     (Inr (''/home'', ''/home/u''), st0\<lparr>log := [''pushd -> /home/u''], wd := [''home'', ''u'']\<rparr>)
   \<and> cd_and_raise (st0\<lparr>log := [''pushd -> /home/u''], wd := [''home'', ''u''],
                        PUSHD_LOCK := PUSHD_LOCK st0 + 1\<rparr>) =
     (Inl (Exception ''boom''),
      st0\<lparr>log := [''pushd -> /home/u'', ''cd -> /srv''], wd := [''srv''], PUSHD_LOCK := 1\<rparr>)
   \<and> isdir (st0\<lparr>log := [''pushd -> /home/u'', ''cd -> /srv''], wd := [''srv''],
                PUSHD_LOCK := 1\<rparr>) ''/home''
   \<and> (\<exists>s'. pushd ''u'' False cd_and_raise st0 = (Inl (Exception ''boom''), s')
          \<and> log s' = [''pushd -> /home/u'', ''cd -> /srv'', ''pushd <- /home/u''])
   \<and> pushd_enter ''/srv'' False st0 =
     (Inr (''/home'', ''/srv''), st0\<lparr>log := [''pushd -> /srv''], wd := [''srv'']\<rparr>)
   \<and> rm_and_raise (st0\<lparr>log := [''pushd -> /srv''], wd := [''srv''],
                        PUSHD_LOCK := PUSHD_LOCK st0 + 1\<rparr>) =
     (Inl (Exception ''boom''),
      st0\<lparr>nodes := [([], Dir), ([''srv''], Dir), ([''etc''], File)],
          log := [''pushd -> /srv''], wd := [''srv''], PUSHD_LOCK := 1\<rparr>)
   \<and> \<not> isdir (st0\<lparr>nodes := [([], Dir), ([''srv''], Dir), ([''etc''], File)],
                  log := [''pushd -> /srv''], wd := [''srv''], PUSHD_LOCK := 1\<rparr>) ''/home''
   \<and> (\<exists>k s'. pushd ''/srv'' False rm_and_raise st0 = (Inl (OSError k), s')
          \<and> log s' = [''pushd -> /srv'', ''pushd <- /srv''] \<and> wd s' = [''srv''])"
proof -
  let ?a1 = "st0\<lparr>log := [''pushd -> /home/u''], wd := [''home'', ''u'']\<rparr>"
  let ?a2 = "st0\<lparr>log := [''pushd -> /home/u'', ''cd -> /srv''], wd := [''srv''], PUSHD_LOCK := 1\<rparr>"
  let ?b1 = "st0\<lparr>log := [''pushd -> /srv''], wd := [''srv'']\<rparr>"
  let ?b2 = "st0\<lparr>nodes := [([], Dir), ([''srv''], Dir), ([''etc''], File)],
          log := [''pushd -> /srv''], wd := [''srv''], PUSHD_LOCK := 1\<rparr>"
  have a1: "pushd_enter ''u'' False st0 = (Inr (''/home'', ''/home/u''), ?a1)" by code_simp
  have a2: "cd_and_raise (?a1\<lparr>PUSHD_LOCK := PUSHD_LOCK st0 + 1\<rparr>) = (Inl (Exception ''boom''), ?a2)"
    by code_simp
  have a3: "isdir ?a2 ''/home''" by code_simp
  have a4: "log ?a2 @ [''pushd <- '' @ ''/home/u''] =
              [''pushd -> /home/u'', ''cd -> /srv'', ''pushd <- /home/u'']" by code_simp
  have b1: "pushd_enter ''/srv'' False st0 = (Inr (''/home'', ''/srv''), ?b1)" by code_simp
  have b2: "rm_and_raise (?b1\<lparr>PUSHD_LOCK := PUSHD_LOCK st0 + 1\<rparr>) = (Inl (Exception ''boom''), ?b2)"
    by code_simp
  have b3: "\<not> isdir ?b2 ''/home''" by code_simp
  have b4: "log ?b2 @ [''pushd <- '' @ ''/srv''] = [''pushd -> /srv'', ''pushd <- /srv'']"
    by code_simp
  have b5: "wd ?b2 = [''srv'']" by simp
  from pushd_body_failure[where body = cd_and_raise, OF a1 a2] a3 a4
  have ca: "\<exists>s'. pushd ''u'' False cd_and_raise st0 = (Inl (Exception ''boom''), s')
          \<and> log s' = [''pushd -> /home/u'', ''cd -> /srv'', ''pushd <- /home/u'']"
    by auto
  from pushd_body_failure[where body = rm_and_raise, OF b1 b2] b3 b4 b5
  have cb: "\<exists>k s'. pushd ''/srv'' False rm_and_raise st0 = (Inl (OSError k), s')
          \<and> log s' = [''pushd -> /srv'', ''pushd <- /srv''] \<and> wd s' = [''srv'']"
    by auto
  from a1 a2 a3 ca b1 b2 b3 cb show ?thesis by simp
qed

text \<open>
  Claim C2 as stated fails. The process is in \<^verbatim>\<open>/home\<close> and enters \<^verbatim>\<open>pushd('/srv')\<close>; the
  body removes \<^verbatim>\<open>/home\<close> and raises \<^verbatim>\<open>Exception('boom')\<close>. What leaves the \<^verbatim>\<open>with\<close> statement
  is the \<^verbatim>\<open>FileNotFoundError\<close> of the restoring \<^verbatim>\<open>chdir\<close>, not the exception of the body,
  and the log has the two debug records of \<^verbatim>\<open>pushd\<close> only.
\<close>

theorem pushd_restore_failure_masks:
  "rm_and_raise (st0\<lparr>log := [''pushd -> /srv''], wd := [''srv''], PUSHD_LOCK := 1\<rparr>) =
     (Inl (Exception ''boom''),
      st0\<lparr>nodes := [([], Dir), ([''srv''], Dir), ([''etc''], File)],
          log := [''pushd -> /srv''], wd := [''srv''], PUSHD_LOCK := 1\<rparr>)
   \<and> pushd ''/srv'' False rm_and_raise st0 =
     (Inl (OSError FileNotFoundError),
      st0\<lparr>nodes := [([], Dir), ([''srv''], Dir), ([''etc''], File)],
          log := [''pushd -> /srv'', ''pushd <- /srv''], wd := [''srv'']\<rparr>)
   \<and> fst (pushd ''/srv'' False rm_and_raise st0) \<noteq> Inl (Exception ''boom'')"
  by code_simp

section \<open>Claims about nested scopes and directory creation\<close>

text \<open>
  Claim C4. Nested scopes restore in reverse order of entry. Whenever the nested
  program returns in a well-formed tree, the five values of \<^verbatim>\<open>cwd()\<close> it has read are
  \<^verbatim>\<open>start\<close>, \<^verbatim>\<open>a\<close>, \<^verbatim>\<open>ab\<close>, \<^verbatim>\<open>a\<close>, \<^verbatim>\<open>start\<close>: the inner scope returns to the directory of its
  own entry, the outer one to the start, and the state is left in the start directory.
  For a relative \<^verbatim>\<open>A\<close> the value \<^verbatim>\<open>a\<close> is the normalised \<^verbatim>\<open>start/A\<close>, and for a relative \<^verbatim>\<open>B\<close>
  the value \<^verbatim>\<open>ab\<close> is the normalised \<^verbatim>\<open>a/B\<close>.
\<close>

theorem nested_pushd_lifo:
  assumes "wf_tree (nodes s)" and "nested A B create s = (Inr obs, s')"
  shows "\<exists>start a ab. obs = [start, a, ab, a, start]
           \<and> fst (cwd s) = Inr start \<and> fst (cwd s') = Inr start \<and> wd s' = wd s
           \<and> (\<not> isabs A \<longrightarrow> a = normpath (path_join start A))
           \<and> (\<not> isabs B \<longrightarrow> ab = normpath (path_join a B))"
proof -
  let ?inner = "seq cwd (\<lambda>c1. seq (pushd B create cwd) (\<lambda>c2. seq cwd (\<lambda>c3. ret [c1, c2, c3])))"
  from assms(2) obtain c0 sa where c0: "cwd s = (Inr c0, sa)"
    and r1: "seq (pushd A create ?inner) (\<lambda>cs. seq cwd (\<lambda>c4. ret (c0 # cs @ [c4]))) sa = (Inr obs, s')"
    unfolding nested_def by (rule seq_InrE)
  note k0 = cwd_Inr[OF c0]
  from r1 obtain cs sb where pa: "pushd A create ?inner s = (Inr cs, sb)"
    and r2: "seq cwd (\<lambda>c4. ret (c0 # cs @ [c4])) sb = (Inr obs, s')"
    unfolding k0(1) by (rule seq_InrE)
  from r2 obtain c4 sc where c4: "cwd sb = (Inr c4, sc)" and o: "ret (c0 # cs @ [c4]) sc = (Inr obs, s')"
    by (rule seq_InrE)
  note k4 = cwd_Inr[OF c4]
  from o k4(1) have obs: "obs = c0 # cs @ [c4]" and s': "s' = sb" by (auto simp: ret_def)
  from pushd_returns[OF assms(1) pa] obtain tokA s1 s2 where
    ea: "pushd_enter A create s = (Inr tokA, s1)"
    and ba: "?inner (s1\<lparr>PUSHD_LOCK := PUSHD_LOCK s + 1\<rparr>) = (Inr cs, s2)"
    and wa: "wd sb = wd s" by blast
  let ?s1 = "s1\<lparr>PUSHD_LOCK := PUSHD_LOCK s + 1\<rparr>"
  note ia = pushd_in_scope[OF assms(1) ea]
  note ja = pushd_enter_Inr[OF ea]
  have wf1: "wf_tree (nodes ?s1)" using ja(8)[OF assms(1)] by simp
  from ba obtain c1 t0 where c1: "cwd ?s1 = (Inr c1, t0)"
    and r3: "seq (pushd B create cwd) (\<lambda>c2. seq cwd (\<lambda>c3. ret [c1, c2, c3])) t0 = (Inr cs, s2)"
    by (rule seq_InrE)
  note k1 = cwd_Inr[OF c1]
  from r3 obtain c2 t3 where pb: "pushd B create cwd ?s1 = (Inr c2, t3)"
    and r4: "seq cwd (\<lambda>c3. ret [c1, c2, c3]) t3 = (Inr cs, s2)"
    unfolding k1(1) by (rule seq_InrE)
  from r4 obtain c3 t4 where c3: "cwd t3 = (Inr c3, t4)" and o2: "ret [c1, c2, c3] t4 = (Inr cs, s2)"
    by (rule seq_InrE)
  note k3 = cwd_Inr[OF c3]
  from o2 have cs: "cs = [c1, c2, c3]" by (auto simp: ret_def)
  from pushd_returns[OF wf1 pb] obtain tokB u1 u2 where
    eb: "pushd_enter B create ?s1 = (Inr tokB, u1)"
    and bb: "cwd (u1\<lparr>PUSHD_LOCK := PUSHD_LOCK ?s1 + 1\<rparr>) = (Inr c2, u2)"
    and wb: "wd t3 = wd ?s1" by blast
  note ib = pushd_in_scope[OF wf1 eb]
  have e0: "c0 = CHR ''/'' # join_sep (wd s)" using k0(3) ia(2) by (simp add: normpath_render)
  have e4: "c4 = c0" using k4(3) k0(3) wa by simp
  have e1: "c1 = CHR ''/'' # join_sep (wd s1)" using c1 ia(1) ia(4)[of "PUSHD_LOCK s + 1"] by simp
  have e3: "c3 = c1" using k3(3) k1(3) wb by simp
  have e2: "c2 = CHR ''/'' # join_sep (target ?s1 B)"
    using bb ib(4)[of "PUSHD_LOCK ?s1 + 1"] by simp
  have a1: "\<not> isabs A \<Longrightarrow> c1 = normpath (path_join c0 A)"
    using abs_of_rel[OF ia(2), of A] e1 e0 ia(1) by (simp add: abs_of_def)
  have a2: "\<not> isabs B \<Longrightarrow> c2 = normpath (path_join c1 B)"
    using abs_of_rel[OF ib(2), of B] e2 e1 by (simp add: abs_of_def)
  from c0 c4 s' k4(1) have "fst (cwd s) = Inr c0" "fst (cwd s') = Inr c4" by simp_all
  with obs cs e3 e4 wa s' a1 a2 show ?thesis by simp
qed

theorem nested_pushd_lifo_witness:
  "wf_tree (nodes st0)
   \<and> nested ''u'' ''v'' True st0 =
       (Inr [''/home'', ''/home/u'', ''/home/u/v'', ''/home/u'', ''/home''],
        st0\<lparr>nodes := ([''home'', ''u'', ''v''], Dir) # nodes st0,
            log := [''pushd -> /home/u'', ''pushd -> /home/u/v'', ''pushd <- /home/u/v'',
                    ''pushd <- /home/u'']\<rparr>)
   \<and> \<not> isabs ''u'' \<and> \<not> isabs ''v''
   \<and> fst (cwd st0) = Inr ''/home''
   \<and> ''/home/u'' = normpath (path_join ''/home'' ''u'')
   \<and> ''/home/u/v'' = normpath (path_join ''/home/u'' ''v'')"
proof -
  let ?s' = "st0\<lparr>nodes := ([''home'', ''u'', ''v''], Dir) # nodes st0,
            log := [''pushd -> /home/u'', ''pushd -> /home/u/v'', ''pushd <- /home/u/v'',
                    ''pushd <- /home/u'']\<rparr>"
  have h1: "wf_tree (nodes st0)" by code_simp
  have h2: "nested ''u'' ''v'' True st0 =
       (Inr [''/home'', ''/home/u'', ''/home/u/v'', ''/home/u'', ''/home''], ?s')"
    by code_simp
  have h3: "\<not> isabs ''u''" "\<not> isabs ''v''" by code_simp+
  from nested_pushd_lifo[OF h1 h2] h3
  have "fst (cwd st0) = Inr ''/home'' \<and> ''/home/u'' = normpath (path_join ''/home'' ''u'')
        \<and> ''/home/u/v'' = normpath (path_join ''/home/u'' ''v'')"
    by auto
  with h1 h2 h3 show ?thesis by simp
qed

text \<open>
  Claim C8. \<^verbatim>\<open>pushd(path, create=True)\<close> on a path that names no node of a well-formed
  tree. From a working directory that exists, and with no regular file on the way to
  the node, the entry succeeds. Whenever the entry succeeds, \<^verbatim>\<open>cwd()\<close> read inside the
  scope is the absolute path of the new directory (the result of \<^verbatim>\<open>abspath\<close>, unless the
  path starts with exactly two separators, which \<^verbatim>\<open>abspath\<close> keeps and the kernel does
  not); after the scope the node and all its ancestors are directories, every node that
  was there before is unchanged, and the working directory and \<^verbatim>\<open>cwd()\<close> are those from
  before the entry.
\<close>

theorem pushd_create:
  assumes "wf_tree (nodes s)" and "map_of (nodes s) (path_comps (abs_of s path)) = None"
  shows "(map_of (nodes s) (wd s) = Some Dir
          \<and> list_all (\<lambda>n. map_of (nodes s) (take n (path_comps (abs_of s path))) \<noteq> Some File)
                [0..<length (path_comps (abs_of s path))]
          \<longrightarrow> (\<exists>tok s1. pushd_enter path True s = (Inr tok, s1)))
       \<and> ((\<exists>tok s1. pushd_enter path True s = (Inr tok, s1)) \<longrightarrow>
          (\<exists>c s'. pushd path True cwd s = (Inr c, s')
           \<and> c = CHR ''/'' # join_sep (path_comps (abs_of s path))
           \<and> (initial_slashes path \<noteq> 2 \<longrightarrow> c = abs_of s path)
           \<and> (\<forall>n. map_of (nodes s') (take n (path_comps (abs_of s path))) = Some Dir)
           \<and> (\<forall>q k. map_of (nodes s) q = Some k \<longrightarrow> map_of (nodes s') q = Some k)
           \<and> wd s' = wd s \<and> fst (cwd s') = fst (cwd s)))"
proof -
  let ?tg = "target s path"
  have pc: "path_comps (abs_of s path) = ?tg" if "map_of (nodes s) (wd s) = Some Dir"
    using path_comps_abs_of[OF target_regular[OF wf_regular[OF assms(1) that]]] .
  have one: "\<exists>tok s1. pushd_enter path True s = (Inr tok, s1)"
    if w: "map_of (nodes s) (wd s) = Some Dir"
      and a: "list_all (\<lambda>n. map_of (nodes s) (take n (path_comps (abs_of s path))) \<noteq> Some File)
                [0..<length (path_comps (abs_of s path))]"
  proof -
    have "\<forall>n \<le> length ?tg. map_of (nodes s) (take n ?tg) \<noteq> Some File"
    proof (intro allI impI)
      fix n assume n: "n \<le> length ?tg"
      show "map_of (nodes s) (take n ?tg) \<noteq> Some File"
      proof (cases "n = length ?tg")
        case True
        with assms(2) pc[OF w] show ?thesis by simp
      next
        case False
        with n a pc[OF w] show ?thesis by (simp add: list_all_iff)
      qed
    qed
    from pushd_enter_creates[OF assms(1) w this] show ?thesis .
  qed
  have two: "\<exists>c s'. pushd path True cwd s = (Inr c, s')
           \<and> c = CHR ''/'' # join_sep (path_comps (abs_of s path))
           \<and> (initial_slashes path \<noteq> 2 \<longrightarrow> c = abs_of s path)
           \<and> (\<forall>n. map_of (nodes s') (take n (path_comps (abs_of s path))) = Some Dir)
           \<and> (\<forall>q k. map_of (nodes s) q = Some k \<longrightarrow> map_of (nodes s') q = Some k)
           \<and> wd s' = wd s \<and> fst (cwd s') = fst (cwd s)"
    if en: "pushd_enter path True s = (Inr tok, s1)" for tok s1
  proof -
    let ?s2 = "s1\<lparr>PUSHD_LOCK := PUSHD_LOCK s + 1\<rparr>"
    note i = pushd_in_scope[OF assms(1) en]
    note e = pushd_enter_Inr[OF en]
    have wf1: "wf_tree (nodes s1)" using e(8)[OF assms(1)] .
    have wf2: "wf_tree (nodes ?s2)" using wf1 by simp
    have d2: "map_of (nodes ?s2) (wd s) = Some Dir" using e(7)[OF e(1)] by simp
    have tgd: "map_of (nodes s1) ?tg = Some Dir" using e(3) i(1) by simp
    have anc: "map_of (nodes s1) (take n ?tg) = Some Dir" for n
    proof (cases "drop n ?tg = []")
      case True
      then have "take n ?tg = ?tg" by simp
      with tgd show ?thesis by simp
    next
      case False
      from wf_prefix[OF wf1, of "take n ?tg" "drop n ?tg" Dir] tgd False show ?thesis by simp
    qed
    from pushd_general[where body = cwd, OF en i(4)[of "PUSHD_LOCK s + 1"] wf2 d2]
    have p: "pushd path True cwd s =
       (Inr (CHR ''/'' # join_sep ?tg),
        s1\<lparr>PUSHD_LOCK := PUSHD_LOCK s + 1, log := log s1 @ [''pushd <- '' @ abs_of s path],
            wd := wd s, PUSHD_LOCK := PUSHD_LOCK s + 1 - 1\<rparr>)"
      by simp
    have single: "initial_slashes path \<noteq> 2 \<Longrightarrow> CHR ''/'' # join_sep ?tg = abs_of s path"
      using abs_of_single[OF _ i(2), of path] by simp
    from p anc e(7) e(1) d2 single show ?thesis
      unfolding pc[OF e(1)] by (simp add: cwd_eq)
  qed
  from one two show ?thesis by blast
qed

theorem pushd_create_witness:
  "wf_tree (nodes st0) \<and> map_of (nodes st0) (wd st0) = Some Dir
   \<and> path_comps (abs_of st0 ''x/y'') = [''home'', ''x'', ''y'']
   \<and> map_of (nodes st0) [''home'', ''x'', ''y''] = None
   \<and> list_all (\<lambda>n. map_of (nodes st0) (take n [''home'', ''x'', ''y'']) \<noteq> Some File) [0..<3]
   \<and> initial_slashes ''x/y'' \<noteq> 2
   \<and> (\<exists>tok s1. pushd_enter ''x/y'' True st0 = (Inr tok, s1))
   \<and> (\<exists>s'. pushd ''x/y'' True cwd st0 = (Inr ''/home/x/y'', s')
          \<and> map_of (nodes s') [''home'', ''x'', ''y''] = Some Dir
          \<and> map_of (nodes s') [''home'', ''x''] = Some Dir
          \<and> wd s' = [''home''])"
proof -
  have h1: "wf_tree (nodes st0)" by code_simp
  have h2: "map_of (nodes st0) (wd st0) = Some Dir" by code_simp
  have pc: "path_comps (abs_of st0 ''x/y'') = [''home'', ''x'', ''y'']" by code_simp
  have h3: "map_of (nodes st0) (path_comps (abs_of st0 ''x/y'')) = None" by code_simp
  have h4: "list_all (\<lambda>n. map_of (nodes st0) (take n (path_comps (abs_of st0 ''x/y''))) \<noteq> Some File)
              [0..<length (path_comps (abs_of st0 ''x/y''))]" by code_simp
  have h5: "initial_slashes ''x/y'' \<noteq> 2" by code_simp
  have ab: "abs_of st0 ''x/y'' = ''/home/x/y''" by code_simp
  have w: "wd st0 = [''home'']" by code_simp
  note t = pushd_create[OF h1 h3]
  from t h2 h4 have en: "\<exists>tok s1. pushd_enter ''x/y'' True st0 = (Inr tok, s1)" by blast
  with t obtain c s' where
    p: "pushd ''x/y'' True cwd st0 = (Inr c, s')"
    and c: "initial_slashes ''x/y'' \<noteq> 2 \<longrightarrow> c = abs_of st0 ''x/y''"
    and a: "\<forall>n. map_of (nodes s') (take n (path_comps (abs_of st0 ''x/y''))) = Some Dir"
    and v: "wd s' = wd st0"
    by blast
  from a[rule_format, of 3] a[rule_format, of 2] pc
  have "map_of (nodes s') [''home'', ''x'', ''y''] = Some Dir"
       "map_of (nodes s') [''home'', ''x''] = Some Dir" by simp_all
  with p c h5 ab v w
  have "\<exists>s'. pushd ''x/y'' True cwd st0 = (Inr ''/home/x/y'', s')
          \<and> map_of (nodes s') [''home'', ''x'', ''y''] = Some Dir
          \<and> map_of (nodes s') [''home'', ''x''] = Some Dir
          \<and> wd s' = [''home'']" by auto
  moreover have "list_all (\<lambda>n. map_of (nodes st0) (take n [''home'', ''x'', ''y'']) \<noteq> Some File) [0..<3]"
    by code_simp
  ultimately show ?thesis using h1 h2 pc h3 h5 en by simp
qed

text \<open>
  Claim C9, as the code has it. For every path that names an existing directory of a
  well-formed tree, \<^verbatim>\<open>cd(path, create=True)\<close> returns with the working directory in that
  directory and the tree unchanged. The entry of \<^verbatim>\<open>pushd(path, create=True)\<close> does the same
  provided the current working directory still exists: \<^verbatim>\<open>pushd\<close> reads it before anything
  else.
\<close>

theorem create_on_existing:
  assumes "wf_tree (nodes s)" and "isdir s path"
  shows "\<exists>d. resolve s path = Inr d \<and> map_of (nodes s) d = Some Dir
           \<and> cd path True s = (Inr (), s\<lparr>log := log s @ [''cd -> '' @ path], wd := d\<rparr>)
           \<and> (map_of (nodes s) (wd s) = Some Dir \<longrightarrow>
                pushd_enter path True s =
                  (Inr (CHR ''/'' # join_sep (wd s), abs_of s path),
                   s\<lparr>log := log s @ [''pushd -> '' @ abs_of s path], wd := d\<rparr>))"
proof -
  from assms(2) obtain d where r: "resolve s path = Inr d" and dd: "map_of (nodes s) d = Some Dir"
    by (auto simp: isdir_def split: sum.splits)
  let ?l = "s\<lparr>log := log s @ [''cd -> '' @ path]\<rparr>"
  have "chdir path ?l = (Inr (), ?l\<lparr>wd := d\<rparr>)"
    using r dd by (intro chdir_ok) (simp_all add: resolve_log)
  with makedirs_existing[OF r dd]
  have c: "cd path True s = (Inr (), s\<lparr>log := log s @ [''cd -> '' @ path], wd := d\<rparr>)"
    by (simp add: cd_eq)
  have p: "pushd_enter path True s =
                  (Inr (CHR ''/'' # join_sep (wd s), abs_of s path),
                   s\<lparr>log := log s @ [''pushd -> '' @ abs_of s path], wd := d\<rparr>)"
    if w: "map_of (nodes s) (wd s) = Some Dir"
  proof -
    from wf_regular[OF assms(1) w] have rw: "list_all regular (wd s)" .
    from resolve_target[OF assms(1) r] target_start[OF rw, of path] have t: "target s path = d"
      by simp
    note rt = target_regular[OF rw, of path]
    have "resolve s (abs_of s path) = namei (map_of (nodes s)) [] (target s path)"
      using resolve_abs_of[OF wf_root[OF assms(1)] rt] .
    with namei_dir_chain[OF assms(1), of "[]" d] dd t
    have ra: "resolve s (abs_of s path) = Inr d" by simp
    let ?m = "s\<lparr>log := log s @ [''pushd -> '' @ abs_of s path]\<rparr>"
    have "chdir (abs_of s path) ?m = (Inr (), ?m\<lparr>wd := d\<rparr>)"
      using ra dd by (intro chdir_ok) (simp_all add: resolve_log)
    with makedirs_existing[OF ra dd] w show ?thesis
      by (simp add: pushd_enter_eq)
  qed
  from r dd c p show ?thesis by blast
qed

theorem create_on_existing_witness:
  "wf_tree (nodes st0) \<and> isdir st0 ''u'' \<and> map_of (nodes st0) (wd st0) = Some Dir
   \<and> cd ''u'' True st0 = (Inr (), st0\<lparr>log := [''cd -> u''], wd := [''home'', ''u'']\<rparr>)
   \<and> pushd_enter ''u'' True st0 =
       (Inr (''/home'', ''/home/u''),
        st0\<lparr>log := [''pushd -> /home/u''], wd := [''home'', ''u'']\<rparr>)"
proof -
  have h1: "wf_tree (nodes st0)" by code_simp
  have h2: "isdir st0 ''u''" by code_simp
  have h3: "map_of (nodes st0) (wd st0) = Some Dir" by code_simp
  have r: "resolve st0 ''u'' = Inr [''home'', ''u'']" by code_simp
  have v: "log st0 @ [''cd -> '' @ ''u''] = [''cd -> u'']"
    "CHR ''/'' # join_sep (wd st0) = ''/home''" "abs_of st0 ''u'' = ''/home/u''"
    "log st0 @ [''pushd -> '' @ ''/home/u''] = [''pushd -> /home/u'']"
    by code_simp+
  from create_on_existing[OF h1 h2] r h3 v
  have "cd ''u'' True st0 = (Inr (), st0\<lparr>log := [''cd -> u''], wd := [''home'', ''u'']\<rparr>)
   \<and> pushd_enter ''u'' True st0 =
       (Inr (''/home'', ''/home/u''),
        st0\<lparr>log := [''pushd -> /home/u''], wd := [''home'', ''u'']\<rparr>)"
    by auto
  with h1 h2 h3 show ?thesis by simp
qed

text \<open>
  Claim C9 as stated fails for \<^verbatim>\<open>pushd\<close>. The working directory of the process has been
  removed; \<^verbatim>\<open>/\<close> is an existing directory, and \<^verbatim>\<open>cd('/', create=True)\<close> enters it, but
  \<^verbatim>\<open>pushd('/', create=True)\<close> raises the \<^verbatim>\<open>FileNotFoundError\<close> of \<^verbatim>\<open>os.getcwd()\<close>.
\<close>

theorem pushd_needs_cwd:
  "wf_tree (nodes st_gone) \<and> isdir st_gone ''/''
   \<and> pushd_enter ''/'' True st_gone = (Inl (OSError FileNotFoundError), st_gone)
   \<and> pushd ''/'' True cwd st_gone = (Inl (OSError FileNotFoundError), st_gone)
   \<and> cd ''/'' True st_gone = (Inr (), st_gone\<lparr>log := [''cd -> /''], wd := []\<rparr>)"
  by code_simp

section \<open>Claims about app\<close>

text \<open>
  Claim C6, as the code has it. For every command name and all arguments: when the
  program is located and \<^verbatim>\<open>bake\<close> accepts the options it is given (the caller's keywords
  together with the \<^verbatim>\<open>_out\<close>, \<^verbatim>\<open>_err\<close> and \<^verbatim>\<open>_tee\<close> that \<^verbatim>\<open>app\<close> always passes), \<^verbatim>\<open>app\<close> returns
  the located program with the arguments and options baked in; when the program is not
  located and the interpreter's own executable is, \<^verbatim>\<open>app\<close> returns the interpreter with
  \<^verbatim>\<open>-c\<close> and the script that names the command. In both cases \<^verbatim>\<open>app\<close> does not raise.
\<close>

theorem app_resolves:
  "(which env name = Some p
      \<and> extract_call_args env ([(''_out'', out), (''_err'', err), (''_tee'', tee)] @ kwargs)
          = Inr (passed, rest)
      \<longrightarrow> app env name args out err tee kwargs =
            Inr \<lparr>program = p,
                 baked_args = args @ concat (map (compile_kwarg env) rest),
                 baked_kwargs = filter (\<lambda>(k, v). map_of (call_args env) k \<noteq> Some v) passed\<rparr>)
   \<and> (which env name = None \<and> which env (sys_executable env) = Some py
      \<longrightarrow> app env name args out err tee kwargs =
            Inr \<lparr>program = py, baked_args = [''-c'', script name], baked_kwargs = []\<rparr>)"
proof (intro conjI impI)
  assume a: "which env name = Some p
      \<and> extract_call_args env ([(''_out'', out), (''_err'', err), (''_tee'', tee)] @ kwargs)
          = Inr (passed, rest)"
  then show "app env name args out err tee kwargs =
            Inr \<lparr>program = p,
                 baked_args = args @ concat (map (compile_kwarg env) rest),
                 baked_kwargs = filter (\<lambda>(k, v). map_of (call_args env) k \<noteq> Some v) passed\<rparr>"
    by (simp add: app_def Command_def bake_def)
next
  assume "which env name = None \<and> which env (sys_executable env) = Some py"
  then show "app env name args out err tee kwargs =
            Inr \<lparr>program = py, baked_args = [''-c'', script name], baked_kwargs = []\<rparr>"
    using app_fallback by blast
qed

theorem app_resolves_witness:
  "which env0 ''ls'' = Some ''/bin/ls''
   \<and> extract_call_args env0
        ([(''_out'', Stream Stdout), (''_err'', Stream Stderr), (''_tee'', Bool True)]
         @ [(''color'', Bool True)])
      = Inr ([(''out'', Stream Stdout), (''err'', Stream Stderr), (''tee'', Bool True)],
             [(''color'', Bool True)])
   \<and> app env0 ''ls'' [''-l''] (Stream Stdout) (Stream Stderr) (Bool True) [(''color'', Bool True)] =
       Inr \<lparr>program = ''/bin/ls'', baked_args = [''-l'', ''--color''],
            baked_kwargs = [(''out'', Stream Stdout), (''err'', Stream Stderr),
                            (''tee'', Bool True)]\<rparr>
   \<and> which env0 ''frob'' = None
   \<and> which env0 (sys_executable env0) = Some ''/usr/bin/python3''
   \<and> app env0 ''frob'' [''-l''] (Stream Stdout) (Stream Stderr) (Bool True) [] =
       Inr \<lparr>program = ''/usr/bin/python3'', baked_args = [''-c'', script ''frob''],
            baked_kwargs = []\<rparr>"
proof -
  let ?passed = "[(''out'', Stream Stdout), (''err'', Stream Stderr), (''tee'', Bool True)]"
  have h1: "which env0 ''ls'' = Some ''/bin/ls''" by (simp add: env0_def)
  have h2: "extract_call_args env0
        ([(''_out'', Stream Stdout), (''_err'', Stream Stderr), (''_tee'', Bool True)]
         @ [(''color'', Bool True)])
      = Inr (?passed, [(''color'', Bool True)])" by code_simp
  have h3: "which env0 ''frob'' = None" by (simp add: env0_def)
  have h4: "which env0 (sys_executable env0) = Some ''/usr/bin/python3''"
    by (simp add: env0_def)
  have v: "[''-l''] @ concat (map (compile_kwarg env0) [(''color'', Bool True)]) = [''-l'', ''--color'']"
    "filter (\<lambda>(k, v). map_of (call_args env0) k \<noteq> Some v) ?passed = ?passed"
    by (simp_all add: env0_def)
  from app_resolves[where env = env0 and name = "''ls''" and p = "''/bin/ls''"
      and out = "Stream Stdout" and err = "Stream Stderr" and tee = "Bool True"
      and kwargs = "[(''color'', Bool True)]" and passed = ?passed
      and rest = "[(''color'', Bool True)]" and args = "[''-l'']"] h1 h2 v
  have a: "app env0 ''ls'' [''-l''] (Stream Stdout) (Stream Stderr) (Bool True) [(''color'', Bool True)] =
       Inr \<lparr>program = ''/bin/ls'', baked_args = [''-l'', ''--color''], baked_kwargs = ?passed\<rparr>"
    by simp
  from app_resolves[where env = env0 and name = "''frob''" and py = "''/usr/bin/python3''"
      and out = "Stream Stdout" and err = "Stream Stderr" and tee = "Bool True"
      and kwargs = "[]" and args = "[''-l'']"] h3 h4
  have b: "app env0 ''frob'' [''-l''] (Stream Stdout) (Stream Stderr) (Bool True) [] =
       Inr \<lparr>program = ''/usr/bin/python3'', baked_args = [''-c'', script ''frob''],
            baked_kwargs = []\<rparr>"
    by simp
  from h1 h2 h3 h4 a b show ?thesis by simp
qed

text \<open>
  Claim C6 as stated fails in two ways. Where the interpreter cannot be located
  (\<^verbatim>\<open>sys.executable\<close> is empty) the handler's own \<^verbatim>\<open>sh.Command\<close> raises \<^verbatim>\<open>CommandNotFound\<close>
  out of \<^verbatim>\<open>app\<close>. Where the program and the interpreter are both located, a true \<^verbatim>\<open>_fg\<close>
  next to the \<^verbatim>\<open>_out\<close>, \<^verbatim>\<open>_err\<close> and \<^verbatim>\<open>_tee\<close> of \<^verbatim>\<open>app\<close> is refused by \<^verbatim>\<open>bake\<close>, and the
  \<^verbatim>\<open>TypeError\<close> leaves \<^verbatim>\<open>app\<close>.
\<close>

theorem app_raises:
  "app env_bare ''ls'' [] (Stream Stdout) (Stream Stderr) (Bool True) [] =
     Inl (CommandNotFound (sys_executable env_bare))
   \<and> sys_executable env_bare = []
   \<and> which env0 ''ls'' = Some ''/bin/ls''
   \<and> which env0 (sys_executable env0) = Some ''/usr/bin/python3''
   \<and> app env0 ''ls'' [] (Stream Stdout) (Stream Stderr) (Bool True) [(''_fg'', Bool True)] =
     Inl (TypeError ''Invalid special arguments'')"
  by code_simp

text \<open>
  Claim C1, as the code has it. For a command that is not located, whose name is made
  of printable characters other than the quote and the backslash, and with the
  interpreter's own executable located: \<^verbatim>\<open>app\<close> returns the fallback; for every list of
  positional call-time arguments the child that calling it starts prints the message
  naming the command and exits with status 1, and the call with no call-time options
  raises \<^verbatim>\<open>ErrorReturnCode\<close> with status 1 and that message in the caller. It is the
  child that exits; the caller gets a catchable exception.
\<close>

theorem fallback_call:
  assumes "which env name = None" and "which env (sys_executable env) = Some py"
    and "plain name"
  shows "\<exists>h. app env name args out err tee kwargs = Inr h
           \<and> program h = py \<and> baked_args h = [''-c'', script name] \<and> baked_kwargs h = []
           \<and> (\<forall>cargs. spawn env (program h) (baked_args h @ cargs) =
                         (1, ''Command `'' @ name @ ''` not found'')
                    \<and> call env h cargs [] =
                         Inl (ErrorReturnCode 1 (''Command `'' @ name @ ''` not found'')))"
proof -
  let ?h = "\<lparr>program = py, baked_args = [''-c'', script name], baked_kwargs = []\<rparr>"
  have a: "app env name args out err tee kwargs = Inr ?h"
    using app_fallback[OF assms(1,2)] .
  have s: "spawn env py ([''-c'', script name] @ cargs) = (1, ''Command `'' @ name @ ''` not found'')"
    for cargs using spawn_fallback[OF assms(2,3)] by simp
  have c: "call env ?h cargs [] = Inl (ErrorReturnCode 1 (''Command `'' @ name @ ''` not found''))"
    for cargs
    using s[of cargs]
    by (simp add: call_def extract_call_args_Nil captures_def ok_code_def)
  from a s c show ?thesis by simp
qed

theorem fallback_call_witness:
  "which env0 ''frob'' = None \<and> which env0 (sys_executable env0) = Some ''/usr/bin/python3''
   \<and> plain ''frob''
   \<and> (\<exists>h. app env0 ''frob'' [] (Stream Stdout) (Stream Stderr) (Bool True) [] = Inr h
         \<and> call env0 h [''x''] [] = Inl (ErrorReturnCode 1 ''Command `frob` not found''))"
proof -
  have h1: "which env0 ''frob'' = None" by (simp add: env0_def)
  have h2: "which env0 (sys_executable env0) = Some ''/usr/bin/python3''"
    by (simp add: env0_def)
  have h3: "plain ''frob''" by code_simp
  from fallback_call[OF h1 h2 h3, of "[]" "Stream Stdout" "Stream Stderr" "Bool True" "[]"]
  obtain h where a: "app env0 ''frob'' [] (Stream Stdout) (Stream Stderr) (Bool True) [] = Inr h"
    and c: "\<forall>cargs. call env0 h cargs [] =
                 Inl (ErrorReturnCode 1 (''Command `'' @ ''frob'' @ ''` not found''))"
    by blast
  from c[rule_format, of "[''x'']"]
  have "call env0 h [''x''] [] = Inl (ErrorReturnCode 1 ''Command `frob` not found'')"
    by simp
  with a h1 h2 h3 show ?thesis by blast
qed

text \<open>
  Claim C1 as stated fails. For \<^verbatim>\<open>frob\<close> the child prints the message and exits with
  status 1; the caller gets the catchable \<^verbatim>\<open>ErrorReturnCode\<close> 1, not a process exit, and
  with the call-time option \<^verbatim>\<open>_ok_code=[0, 1]\<close> the call returns normally. For a name with
  a quote in it the script is another program: the child prints a message that does
  not name the command, exits with status 0, and the call returns.
\<close>

theorem fallback_call_is_catchable:
  "app env0 ''frob'' [] (Stream Stdout) (Stream Stderr) (Bool True) [] =
     Inr \<lparr>program = ''/usr/bin/python3'', baked_args = [''-c'', script ''frob''],
          baked_kwargs = []\<rparr>
   \<and> call env0 \<lparr>program = ''/usr/bin/python3'', baked_args = [''-c'', script ''frob''],
                 baked_kwargs = []\<rparr> [] [] =
       Inl (ErrorReturnCode 1 ''Command `frob` not found'')
   \<and> call env0 \<lparr>program = ''/usr/bin/python3'', baked_args = [''-c'', script ''frob''],
                 baked_kwargs = []\<rparr> [] [] \<noteq> Inl (SystemExit 1)
   \<and> call env0 \<lparr>program = ''/usr/bin/python3'', baked_args = [''-c'', script ''frob''],
                 baked_kwargs = []\<rparr> [] [(''_ok_code'', Codes [0, 1])] =
       Inr ''Command `frob` not found''
   \<and> app env0 quoted_name [] (Stream Stdout) (Stream Stderr) (Bool True) [] =
     Inr \<lparr>program = ''/usr/bin/python3'', baked_args = [''-c'', script quoted_name],
          baked_kwargs = []\<rparr>
   \<and> call env0 \<lparr>program = ''/usr/bin/python3'', baked_args = [''-c'', script quoted_name],
                 baked_kwargs = []\<rparr> [] [] = Inr ''Command `x`''"
  by code_simp

end
